theory Spec2Isabelle
  imports Main "HOL-Library.Word" "HOL-Library.Multiset"
begin

unbundle bit_operations_syntax

chapter \<open>LexicMap: seed store searcher, anchors, chaining and helpers\<close>

text \<open>
  Go's fixed-width integers are words: \<open>uint8\<close> is \<open>8 word\<close>, \<open>int32\<close> and \<open>uint32\<close> are
  \<open>32 word\<close>, \<open>uint64\<close> and \<open>int\<close> (on the 64-bit targets the tool is built for) are
  \<open>64 word\<close>; signed types are read with \<open>sint\<close> and compared with \<open>\<le>s\<close> and \<open><s\<close>.
  Byte slices are lists of \<open>8 word\<close>.
\<close>

type_synonym byte = "8 word"
type_synonym uint8 = "8 word"
type_synonym int32 = "32 word"
type_synonym uint32 = "32 word"
type_synonym uint64 = "64 word"

section \<open>Definitions\<close>

subsection \<open>Reverse complement (\<open>RC\<close>, \<open>rcTable\<close>)\<close>

text \<open>The 256-entry table \<open>rcTable\<close>, entry by entry, one list per line of the source.\<close>

definition rcTable :: "8 word list" where
  "rcTable =
    [0, 1, 2, 3, 4, 5, 6, 7, 8, 9, 10, 11, 12, 13, 14, 15] @
    [16, 17, 18, 19, 20, 21, 22, 23, 24, 25, 26, 27, 28, 29, 30, 31] @
    [32, 33, 34, 35, 36, 37, 38, 39, 40, 41, 42, 43, 44, 45, 46, 47] @
    [48, 49, 50, 51, 52, 53, 54, 55, 56, 57, 58, 59, 60, 61, 62, 63] @
    [64, 84, 86, 71, 72, 69, 70, 67, 68, 73, 74, 77, 76, 75, 78, 79] @
    [80, 81, 89, 83, 65, 85, 66, 87, 88, 82, 90, 91, 92, 93, 94, 95] @
    [96, 116, 118, 103, 104, 101, 102, 99, 100, 105, 106, 109, 108, 107, 110, 111] @
    [112, 113, 121, 115, 97, 117, 98, 119, 120, 114, 122, 123, 124, 125, 126, 127] @
    [128, 129, 130, 131, 132, 133, 134, 135, 136, 137, 138, 139, 140, 141, 142, 143] @
    [144, 145, 146, 147, 148, 149, 150, 151, 152, 153, 154, 155, 156, 157, 158, 159] @
    [160, 161, 162, 163, 164, 165, 166, 167, 168, 169, 170, 171, 172, 173, 174, 175] @
    [176, 177, 178, 179, 180, 181, 182, 183, 184, 185, 186, 187, 188, 189, 190, 191] @
    [192, 193, 194, 195, 196, 197, 198, 199, 200, 201, 202, 203, 204, 205, 206, 207] @
    [208, 209, 210, 211, 212, 213, 214, 215, 216, 217, 218, 219, 220, 221, 222, 223] @
    [224, 225, 226, 227, 228, 229, 230, 231, 232, 233, 234, 235, 236, 237, 238, 239] @
    [240, 241, 242, 243, 244, 245, 246, 247, 248, 249, 250, 251, 252, 253, 254, 255]"

text \<open>
  \<open>RC\<close> works in place with two loops: the first replaces every byte by its table entry
  (\<open>for i := 0; i < n; i++\<close>), the second swaps the ends towards the middle
  (\<open>for i, j := 0, len(s)-1; i < j; i, j = i+1, j-1\<close>). The index \<open>j\<close> starts at \<open>-1\<close>
  for the empty slice, so the second loop counts in \<open>int\<close>. A table index is a byte, so it is
  always inside the 256 entries.
\<close>

function RC_complement :: "8 word list \<Rightarrow> nat \<Rightarrow> nat \<Rightarrow> 8 word list" where
  "RC_complement s i n =
     (if i < n then RC_complement (s[i := rcTable ! unat (s ! i)]) (i + 1) n else s)"
  by pat_completeness auto
termination
  by (relation "measure (\<lambda>(s, i, n). n - i)") auto

function RC_swap :: "8 word list \<Rightarrow> int \<Rightarrow> int \<Rightarrow> 8 word list" where
  "RC_swap s i j =
     (if i < j then RC_swap (s[nat i := s ! nat j, nat j := s ! nat i]) (i + 1) (j - 1) else s)"
  by pat_completeness auto
termination
  by (relation "measure (\<lambda>(s, i, j). nat (j - i))") auto

definition RC :: "8 word list \<Rightarrow> 8 word list" where
  "RC s = RC_swap (RC_complement s 0 (length s)) 0 (int (length s) - 1)"

text \<open>The letters the claim names, and the letters the table really pairs up (IUPAC codes).\<close>

definition acgt_letters :: "byte list" where
  "acgt_letters = [65, 67, 71, 84, 97, 99, 103, 116]"

definition iupac_letters :: "byte list" where
  "iupac_letters = [65, 67, 71, 84, 66, 68, 72, 75, 77, 82, 86, 89,
                    97, 99, 103, 116, 98, 100, 104, 107, 109, 114, 118, 121]"

text \<open>
  For the proofs: the complement as a function on byte values, and the table's entries as
  natural numbers. \<open>rcTable_complement\<close> below shows that they describe \<open>rcTable\<close>.
\<close>

definition complement_nat :: "nat \<Rightarrow> nat" where
  "complement_nat n =
    (if n = 65 then 84 else if n = 84 then 65 else if n = 67 then 71 else if n = 71 then 67
     else if n = 66 then 86 else if n = 86 then 66 else if n = 68 then 72 else if n = 72 then 68
     else if n = 75 then 77 else if n = 77 then 75 else if n = 82 then 89 else if n = 89 then 82
     else if n = 97 then 116 else if n = 116 then 97 else if n = 99 then 103 else if n = 103 then 99
     else if n = 98 then 118 else if n = 118 then 98 else if n = 100 then 104 else if n = 104 then 100
     else if n = 107 then 109 else if n = 109 then 107 else if n = 114 then 121 else if n = 121 then 114
     else n)"

definition rcTable_nat :: "nat list" where
  "rcTable_nat =
    [0, 1, 2, 3, 4, 5, 6, 7, 8, 9, 10, 11, 12, 13, 14, 15] @
    [16, 17, 18, 19, 20, 21, 22, 23, 24, 25, 26, 27, 28, 29, 30, 31] @
    [32, 33, 34, 35, 36, 37, 38, 39, 40, 41, 42, 43, 44, 45, 46, 47] @
    [48, 49, 50, 51, 52, 53, 54, 55, 56, 57, 58, 59, 60, 61, 62, 63] @
    [64, 84, 86, 71, 72, 69, 70, 67, 68, 73, 74, 77, 76, 75, 78, 79] @
    [80, 81, 89, 83, 65, 85, 66, 87, 88, 82, 90, 91, 92, 93, 94, 95] @
    [96, 116, 118, 103, 104, 101, 102, 99, 100, 105, 106, 109, 108, 107, 110, 111] @
    [112, 113, 121, 115, 97, 117, 98, 119, 120, 114, 122, 123, 124, 125, 126, 127] @
    [128, 129, 130, 131, 132, 133, 134, 135, 136, 137, 138, 139, 140, 141, 142, 143] @
    [144, 145, 146, 147, 148, 149, 150, 151, 152, 153, 154, 155, 156, 157, 158, 159] @
    [160, 161, 162, 163, 164, 165, 166, 167, 168, 169, 170, 171, 172, 173, 174, 175] @
    [176, 177, 178, 179, 180, 181, 182, 183, 184, 185, 186, 187, 188, 189, 190, 191] @
    [192, 193, 194, 195, 196, 197, 198, 199, 200, 201, 202, 203, 204, 205, 206, 207] @
    [208, 209, 210, 211, 212, 213, 214, 215, 216, 217, 218, 219, 220, 221, 222, 223] @
    [224, 225, 226, 227, 228, 229, 230, 231, 232, 233, 234, 235, 236, 237, 238, 239] @
    [240, 241, 242, 243, 244, 245, 246, 247, 248, 249, 250, 251, 252, 253, 254, 255]"

subsection \<open>Packed k-mer locations (\<open>buildAnIndex\<close>, \<open>parseKmerValue\<close>)\<close>

text \<open>
  \<open>buildAnIndex\<close> packs a location as
  \<open>uint64(batch)<<47 | ((uint64(refIdx) & 131071) << 30) | (uint64(loc) & 1073741823)\<close>,
  with \<open>batch\<close> and \<open>loc\<close> of type \<open>int\<close> and \<open>refIdx\<close> of type \<open>uint32\<close>.
  \<open>parseKmerValue\<close> returns four \<open>int\<close>s; the conversion \<open>int(\<dots>)\<close> of a \<open>uint64\<close>
  keeps the 64 bits.
\<close>

definition packKmerValue :: "64 word \<Rightarrow> 32 word \<Rightarrow> 64 word \<Rightarrow> 64 word" where
  "packKmerValue batch refIdx loc =
     push_bit 47 batch OR push_bit 30 (ucast refIdx AND 131071) OR (loc AND 1073741823)"

definition parseKmerValue :: "64 word \<Rightarrow> 64 word \<times> 64 word \<times> 64 word \<times> 64 word" where
  "parseKmerValue v =
     (drop_bit 47 v, drop_bit 47 (push_bit 17 v), drop_bit 35 (push_bit 34 v), v AND 1)"


subsection \<open>Varint pair codec (\<open>PutUint64s\<close>, \<open>Uint64s\<close>)\<close>

text \<open>
  Modelled from the spec: the codec of package \<open>util\<close> (\<open>PutUint64s\<close>, \<open>Uint64s\<close> and the
  table \<open>CtrlByte2ByteLengths\<close>); only its test and its callers are among the sources.
  The spec (section 4.1): one control byte whose low 6 bits hold (len(x)-1, len(y)-1) as two
  3-bit fields, lengths 1..8 bytes each, followed by len(x)+len(y) little-endian data bytes;
  a 64-entry table maps the low 6 bits to (len(x), len(y)); decoding looks the lengths up and
  zero-extends each half to a 64-bit word. The first value's field is taken as the upper
  one. \<open>PutUint64s\<close> returns the control byte and the bytes it wrote (the source's \<open>n\<close> is
  their number); \<open>Uint64s\<close> returns the two values and the number of bytes decoded, 0 when
  the buffer's length does not match, and \<open>None\<close> stands for the panic of indexing the
  64-entry table with a control byte of 64 or more.
\<close>

definition byteLength :: "uint64 \<Rightarrow> nat" where
  "byteLength v =
    (if v < 2 ^ 8 then 1 else if v < 2 ^ 16 then 2 else if v < 2 ^ 24 then 3
     else if v < 2 ^ 32 then 4 else if v < 2 ^ 40 then 5 else if v < 2 ^ 48 then 6
     else if v < 2 ^ 56 then 7 else 8)"

definition putLittleEndian :: "nat \<Rightarrow> uint64 \<Rightarrow> byte list" where
  "putLittleEndian n v = map (\<lambda>i. ucast (drop_bit (8 * i) v)) [0..<n]"

definition littleEndian :: "byte list \<Rightarrow> uint64" where
  "littleEndian bs = foldr (\<lambda>b acc. ucast b OR push_bit 8 acc) bs 0"

definition PutUint64s :: "uint64 \<Rightarrow> uint64 \<Rightarrow> byte \<times> byte list" where
  "PutUint64s v1 v2 =
    (push_bit 3 (of_nat (byteLength v1 - 1)) OR of_nat (byteLength v2 - 1),
     putLittleEndian (byteLength v1) v1 @ putLittleEndian (byteLength v2) v2)"

definition CtrlByte2ByteLengths :: "(uint8 \<times> uint8) list" where
  "CtrlByte2ByteLengths = map (\<lambda>c. (of_nat (c div 8 + 1), of_nat (c mod 8 + 1))) [0..<64]"

definition Uint64s :: "byte \<Rightarrow> byte list \<Rightarrow> ((uint64 \<times> uint64) \<times> nat) option" where
  "Uint64s ctrl buf =
    (if 64 \<le> unat ctrl then None
     else let lens = CtrlByte2ByteLengths ! unat ctrl; n = unat (fst lens) + unat (snd lens)
          in if length buf \<noteq> n then Some ((0, 0), 0)
             else Some ((littleEndian (take (unat (fst lens)) buf),
                         littleEndian (drop (unat (fst lens)) buf)), n))"

subsection \<open>Seed store searcher (\<open>Searcher.Search\<close>)\<close>

text \<open>
  The errors \<open>Search\<close> can end with: its own \<open>invalid kmer\<close> error, the two errors of
  \<open>io.ReadFull\<close>, \<open>ErrBrokenFile\<close>, and a run-time panic (an index out of range).
\<close>

datatype search_error = InvalidKmer | EOF | ErrUnexpectedEOF | ErrBrokenFile | Panic

text \<open>
  The kv-data file behind \<open>scr.fh\<close>: its bytes, the read position, and a count of the calls
  of \<open>io.ReadFull\<close> (a ghost field, for the claims about I/O). \<open>r.Seek(int64(offset), 0)\<close>
  fails on a negative offset and the source ignores its result, so the position then stays.
  \<open>io.ReadFull\<close> reads exactly \<open>n\<close> bytes or fails with \<open>EOF\<close> (nothing left) or
  \<open>ErrUnexpectedEOF\<close> (fewer than \<open>n\<close> left); so the source's checks \<open>nReaded < nBytes\<close>
  can never fire and have no branch here.
\<close>

record kvfile =
  fdata :: "byte list"
  fpos :: nat
  freads :: nat

definition Seek :: "kvfile \<Rightarrow> uint64 \<Rightarrow> kvfile" where
  "Seek f offset = (if sint offset < 0 then f else f\<lparr>fpos := unat offset\<rparr>)"

definition ReadFull :: "kvfile \<Rightarrow> nat \<Rightarrow> (search_error + byte list) \<times> kvfile" where
  "ReadFull f n =
    (let avail = drop (fpos f) (fdata f); f' = f\<lparr>freads := freads f + 1\<rparr>
     in if n = 0 then (Inr [], f')
        else if avail = [] then (Inl EOF, f')
        else if length avail < n then (Inl ErrUnexpectedEOF, f'\<lparr>fpos := fpos f + length avail\<rparr>)
        else (Inr (take n avail), f'\<lparr>fpos := fpos f + n\<rparr>))"

text \<open>
  \<open>be.Uint64\<close> of the 8 bytes read into \<open>buf8\<close>, and the loops
  \<open>for j = 0; j < lenVal; j++\<close> that read one value each. The loops that skip values make
  the same reads and drop the result.
\<close>

definition bigEndian :: "byte list \<Rightarrow> uint64" where
  "bigEndian bs = foldl (\<lambda>acc b. push_bit 8 acc OR ucast b) 0 bs"

fun readValues :: "kvfile \<Rightarrow> nat \<Rightarrow> (search_error + uint64 list) \<times> kvfile" where
  "readValues f 0 = (Inr [], f)"
| "readValues f (Suc n) =
    (case ReadFull f 8 of
       (Inl e, f') \<Rightarrow> (Inl e, f')
     | (Inr buf8, f') \<Rightarrow>
         (case readValues f' n of
            (Inl e, f'') \<Rightarrow> (Inl e, f'')
          | (Inr vs, f'') \<Rightarrow> (Inr (bigEndian buf8 # vs), f'')))"

text \<open>
  The searcher's fields that \<open>Search\<close> reads. \<open>NewSearcher\<close> sets
  \<open>maxKmer: 1<<(k<<1) - 1\<close>, where \<open>k<<1\<close> is a \<open>uint8\<close> and the shift of the \<open>uint64\<close> 1
  by 64 or more gives 0; \<open>ReadKVIndex\<close>, which supplies \<open>k\<close> and the indexes, is not among
  the sources, so they are arguments.
\<close>

record Searcher =
  K :: uint8
  Indexes :: "uint64 list list"
  maxKmer :: uint64

definition NewSearcher :: "uint8 \<Rightarrow> uint64 list list \<Rightarrow> Searcher" where
  "NewSearcher k indexes =
    \<lparr>K = k, Indexes = indexes, maxKmer = push_bit (unat (push_bit 1 k :: uint8)) 1 - 1\<rparr>"

record SearchResult =
  Kmer :: uint64
  LenPrefix :: uint8
  Values :: "uint64 list"

text \<open>
  \<open>bits.LeadingZeros64(x)\<close> is \<open>64 - bits.Len64(x)\<close> in Go's library, \<open>Len64\<close> being the
  number of bits needed to write \<open>x\<close>. \<open>LenPrefix\<close> is computed in \<open>uint8\<close>:
  \<open>uint8(bits.LeadingZeros64(kmer^kmer1)>>1) + k - 32\<close>.
\<close>

fun Len64 :: "nat \<Rightarrow> nat" where
  "Len64 n = (if n = 0 then 0 else Suc (Len64 (n div 2)))"

declare Len64.simps [simp del]

definition LeadingZeros64 :: "uint64 \<Rightarrow> nat" where
  "LeadingZeros64 x = 64 - Len64 (unat x)"

definition lenPrefix :: "uint64 \<Rightarrow> uint64 \<Rightarrow> uint8 \<Rightarrow> uint8" where
  "lenPrefix kmer kmer1 k = of_nat (LeadingZeros64 (kmer XOR kmer1) div 2) + k - 32"

text \<open>The scope \<open>[leftBound, rightBound]\<close> for the (already normalised) minimum prefix \<open>m\<close>.\<close>

definition searchScope :: "uint8 \<Rightarrow> uint64 \<Rightarrow> uint8 \<Rightarrow> uint64 \<times> uint64" where
  "searchScope k kmer m =
    (if m < k then
       let suffix2 = unat (push_bit 1 (k - m) :: uint8);
           mask = push_bit suffix2 1 - 1
       in (kmer AND (- 1 - mask), push_bit suffix2 (drop_bit suffix2 kmer) + mask)
     else (kmer, kmer))"

text \<open>
  The binary search for the anchor. It ends only through \<open>begin+2 == end\<close>; on an index
  with fewer than three anchors it can run forever (\<open>None\<close>), and \<open>index[middle]\<close> panics
  on an index of fewer than two entries.
\<close>

partial_function (option) findAnchor ::
  "uint64 list \<Rightarrow> uint64 \<Rightarrow> int \<Rightarrow> int \<Rightarrow> (search_error + int) option" where
  "findAnchor index leftBound begin end =
    (let middle0 = begin + (end - begin) div 2;
         middle = (if middle0 mod 2 = 1 then middle0 - 1 else middle0)
     in if middle < 0 \<or> int (length index) \<le> middle then Some (Inl Panic)
        else let begin' = (if leftBound < index ! nat middle then begin else middle);
                 end' = (if leftBound < index ! nat middle then middle else end)
             in if begin' + 2 = end' then Some (Inr begin')
                else findAnchor index leftBound begin' end')"

declare findAnchor.simps [code]

text \<open>
  One round of the loop that checks the pairs one by one: it ends the loop with the results
  (\<open>break\<close>), ends \<open>Search\<close> with an error, or goes on with the file, \<open>found\<close>, \<open>_offset\<close>
  and the results. The two frames (control byte, data bytes, \<open>util.Uint64s\<close>) are read by
  \<open>readKmerFrame\<close> and \<open>readLengthFrame\<close>; the second control byte is not masked, so a
  value of 64 or more is outside the table.
\<close>

datatype scan_step =
  Break "SearchResult list" kvfile
| Fail search_error kvfile
| Next kvfile bool uint64 "SearchResult list"

definition readKmerFrame :: "kvfile \<Rightarrow> (search_error + (bool \<times> bool \<times> uint64 \<times> uint64)) \<times> kvfile" where
  "readKmerFrame f =
    (case ReadFull f 1 of (Inl e, f1) \<Rightarrow> (Inl e, f1) | (Inr b, f1) \<Rightarrow>
     let lastPair = (b ! 0 AND 128 \<noteq> 0);
         hasKmer2 = (b ! 0 AND 64 = 0);
         ctrlByte = b ! 0 AND 63;
         bytes = CtrlByte2ByteLengths ! unat ctrlByte;
         nBytes = unat (fst bytes + snd bytes)
     in
     case ReadFull f1 nBytes of (Inl e, f2) \<Rightarrow> (Inl e, f2) | (Inr buf, f2) \<Rightarrow>
     case Uint64s ctrlByte buf of None \<Rightarrow> (Inl Panic, f2) | Some (decodedVals, nDecoded) \<Rightarrow>
     if nDecoded = 0 then (Inl ErrBrokenFile, f2)
     else (Inr (lastPair, hasKmer2, fst decodedVals, snd decodedVals), f2))"

definition readLengthFrame :: "kvfile \<Rightarrow> (search_error + (uint64 \<times> uint64)) \<times> kvfile" where
  "readLengthFrame f =
    (case ReadFull f 1 of (Inl e, f1) \<Rightarrow> (Inl e, f1) | (Inr b, f1) \<Rightarrow>
     if 64 \<le> unat (b ! 0) then (Inl Panic, f1) else
     let ctrlByte = b ! 0;
         bytes = CtrlByte2ByteLengths ! unat ctrlByte;
         nBytes = unat (fst bytes + snd bytes)
     in
     case ReadFull f1 nBytes of (Inl e, f2) \<Rightarrow> (Inl e, f2) | (Inr buf, f2) \<Rightarrow>
     case Uint64s ctrlByte buf of None \<Rightarrow> (Inl Panic, f2) | Some (decodedVals, nDecoded) \<Rightarrow>
     if nDecoded = 0 then (Inl ErrBrokenFile, f2)
     else (Inr decodedVals, f2))"

definition scanPair ::
  "uint64 \<Rightarrow> uint8 \<Rightarrow> uint64 \<Rightarrow> uint64 \<Rightarrow> uint64 \<Rightarrow> bool \<Rightarrow>
   kvfile \<Rightarrow> bool \<Rightarrow> uint64 \<Rightarrow> SearchResult list \<Rightarrow> scan_step" where
  "scanPair kmer k leftBound rightBound indexKmer first f found offs results =
    (case readKmerFrame f of (Inl e, f2) \<Rightarrow> Fail e f2
     | (Inr (lastPair, hasKmer2, d0, d1), f2) \<Rightarrow>
     let kmer1 = (if first then indexKmer else d0 + offs);
         kmer2 = kmer1 + d1
     in
     if rightBound < kmer1 then Break results f2 else
     let found' = (found \<or> leftBound \<le> kmer1 \<or> leftBound \<le> kmer2) in
     case readLengthFrame f2 of (Inl e, f4) \<Rightarrow> Fail e f4 | (Inr (lenVal1, lenVal2), f4) \<Rightarrow>
     case readValues f4 (unat lenVal1) of (Inl e, f5) \<Rightarrow> Fail e f5 | (Inr vals1, f5) \<Rightarrow>
     let results1 =
           (if found' \<and> leftBound \<le> kmer1
            then results @ [\<lparr>Kmer = kmer1, LenPrefix = lenPrefix kmer kmer1 k, Values = vals1\<rparr>]
            else results)
     in
     if rightBound < kmer2 then Break results1 f5 else
     if lastPair \<and> \<not> hasKmer2 then Break results1 f5 else
     case readValues f5 (unat lenVal2) of (Inl e, f6) \<Rightarrow> Fail e f6 | (Inr vals2, f6) \<Rightarrow>
     let results2 =
           (if found'
            then results1 @ [\<lparr>Kmer = kmer2, LenPrefix = lenPrefix kmer kmer2 k, Values = vals2\<rparr>]
            else results1)
     in
     if lastPair then Break results2 f6 else Next f6 found' kmer2 results2)"

text \<open>Every round that goes on has read at least one byte, so the loop ends.\<close>

lemma ReadFull_Inr:
  "ReadFull f n = (Inr bs, f') \<Longrightarrow>
   fdata f' = fdata f \<and> fpos f' = fpos f + n \<and> (0 < n \<longrightarrow> fpos f' \<le> length (fdata f))
     \<and> bs = take n (drop (fpos f) (fdata f)) \<and> length bs = n \<and> freads f' = freads f + 1"
  by (auto simp add: ReadFull_def Let_def split: if_splits)

lemma readValues_Inr:
  "readValues f n = (Inr vs, f') \<Longrightarrow>
   fdata f' = fdata f \<and> fpos f' = fpos f + 8 * n \<and> (0 < n \<longrightarrow> fpos f' \<le> length (fdata f))
     \<and> length vs = n"
proof (induction n arbitrary: f vs f')
  case 0
  then show ?case by simp
next
  case (Suc n)
  from Suc.prems obtain buf8 f1 vs1 where
    r: "ReadFull f 8 = (Inr buf8, f1)" and v: "readValues f1 n = (Inr vs1, f')" and vs: "vs = bigEndian buf8 # vs1"
    by (auto split: prod.splits sum.splits)
  from ReadFull_Inr [OF r] Suc.IH [OF v] vs show ?case by (cases n) auto
qed

definition advanced :: "kvfile \<Rightarrow> kvfile \<Rightarrow> bool" where
  "advanced f f' \<longleftrightarrow> fdata f' = fdata f \<and> fpos f \<le> fpos f'
     \<and> (fpos f \<le> length (fdata f) \<longrightarrow> fpos f' \<le> length (fdata f))"

lemma advanced_trans: "advanced f f' \<Longrightarrow> advanced f' f'' \<Longrightarrow> advanced f f''"
  by (auto simp add: advanced_def)

lemma ReadFull_advanced: "ReadFull f n = (Inr bs, f') \<Longrightarrow> advanced f f'"
  by (drule ReadFull_Inr) (cases n; auto simp add: advanced_def)

lemma readValues_advanced: "readValues f n = (Inr bs, f') \<Longrightarrow> advanced f f'"
  by (drule readValues_Inr) (cases n; auto simp add: advanced_def)

lemma readKmerFrame_Inr:
  assumes "readKmerFrame f = (Inr r, f')"
  shows "fdata f' = fdata f \<and> fpos f < fpos f' \<and> fpos f' \<le> length (fdata f)"
proof -
  from assms obtain b f1 where r1: "ReadFull f 1 = (Inr b, f1)"
    by (auto simp add: readKmerFrame_def split: prod.splits sum.splits)
  from assms r1 obtain n buf where r2: "ReadFull f1 n = (Inr buf, f')"
    by (auto simp add: readKmerFrame_def Let_def split: prod.splits sum.splits option.splits if_splits)
  from ReadFull_Inr [OF r1] ReadFull_advanced [OF r2] show ?thesis
    by (auto simp add: advanced_def)
qed

lemma readLengthFrame_Inr:
  assumes "readLengthFrame f = (Inr r, f')"
  shows "advanced f f'"
proof -
  from assms obtain b f1 where r1: "ReadFull f 1 = (Inr b, f1)"
    by (auto simp add: readLengthFrame_def split: prod.splits sum.splits)
  from assms r1 obtain n buf where r2: "ReadFull f1 n = (Inr buf, f')"
    by (auto simp add: readLengthFrame_def Let_def split: prod.splits sum.splits option.splits if_splits)
  from ReadFull_advanced [OF r1] ReadFull_advanced [OF r2] show ?thesis
    by (rule advanced_trans)
qed

lemma scanPair_Next:
  assumes a: "scanPair kmer k leftBound rightBound indexKmer first f found offs results = Next f' found' offs' results'"
  shows "fdata f' = fdata f \<and> fpos f < fpos f' \<and> fpos f' \<le> length (fdata f)"
proof -
  obtain r2 f2 where k: "readKmerFrame f = (r2, f2)" by (cases "readKmerFrame f")
  with a obtain lastPair hasKmer2 d0 d1 where r2: "r2 = Inr (lastPair, hasKmer2, d0, d1)"
    by (cases r2) (auto simp add: scanPair_def)
  obtain r4 f4 where l: "readLengthFrame f2 = (r4, f4)" by (cases "readLengthFrame f2")
  with a k r2 obtain lenVal1 lenVal2 where r4: "r4 = Inr (lenVal1, lenVal2)"
    by (cases r4) (auto simp add: scanPair_def Let_def split: if_splits)
  obtain r5 f5 where v1: "readValues f4 (unat lenVal1) = (r5, f5)"
    by (cases "readValues f4 (unat lenVal1)")
  with a k r2 l r4 obtain vals1 where r5: "r5 = Inr vals1"
    by (cases r5) (auto simp add: scanPair_def Let_def split: if_splits)
  obtain r6 f6 where v2: "readValues f5 (unat lenVal2) = (r6, f6)"
    by (cases "readValues f5 (unat lenVal2)")
  with a k r2 l r4 v1 r5 obtain vals2 where r6: "r6 = Inr vals2"
    by (cases r6) (auto simp add: scanPair_def Let_def split: if_splits)
  from a k r2 l r4 v1 r5 v2 r6 have f': "f' = f6"
    by (auto simp add: scanPair_def Let_def split: if_splits)
  from readKmerFrame_Inr [OF k [unfolded r2]] readLengthFrame_Inr [OF l [unfolded r4]]
    readValues_advanced [OF v1 [unfolded r5]] readValues_advanced [OF v2 [unfolded r6]]
  show ?thesis unfolding f' advanced_def by auto
qed


function scan ::
  "uint64 \<Rightarrow> uint8 \<Rightarrow> uint64 \<Rightarrow> uint64 \<Rightarrow> uint64 \<Rightarrow> bool \<Rightarrow>
   kvfile \<Rightarrow> bool \<Rightarrow> uint64 \<Rightarrow> SearchResult list \<Rightarrow> (search_error + SearchResult list) \<times> kvfile" where
  "scan kmer k leftBound rightBound indexKmer first f found offs results =
    (case scanPair kmer k leftBound rightBound indexKmer first f found offs results of
       Break results' f' \<Rightarrow> (Inr results', f')
     | Fail e f' \<Rightarrow> (Inl e, f')
     | Next f' found' offs' results' \<Rightarrow>
         scan kmer k leftBound rightBound indexKmer False f' found' offs' results')"
  by pat_completeness auto
termination
  by (relation "measure (\<lambda>(kmer, k, lb, rb, ik, first, f, found, offs, rs). length (fdata f) - fpos f)")
     (auto dest!: scanPair_Next)

declare scan.simps [simp del]

text \<open>
  The body of \<open>for _, index := range scr.Indexes\<close>, the loop over the indexes, and \<open>Search\<close>.
  \<open>_offset\<close> is assigned before it is read, so its value at the first round does not matter.
\<close>

definition searchIndex ::
  "uint64 \<Rightarrow> uint8 \<Rightarrow> uint64 \<Rightarrow> uint64 \<Rightarrow> uint64 list \<Rightarrow> kvfile \<Rightarrow> SearchResult list \<Rightarrow>
   ((search_error + SearchResult list) \<times> kvfile) option" where
  "searchIndex kmer k leftBound rightBound index f results =
    (case findAnchor index leftBound 0 (int (length index) - 2) of
       None \<Rightarrow> None
     | Some (Inl e) \<Rightarrow> Some (Inl e, f)
     | Some (Inr i) \<Rightarrow>
         if i < 0 \<or> int (length index) \<le> i + 1 then Some (Inl Panic, f)
         else Some (scan kmer k leftBound rightBound (index ! nat i) True
                      (Seek f (index ! nat (i + 1))) False 0 results))"

fun searchIndexes ::
  "uint64 \<Rightarrow> uint8 \<Rightarrow> uint64 \<Rightarrow> uint64 \<Rightarrow> uint64 list list \<Rightarrow> kvfile \<Rightarrow> SearchResult list \<Rightarrow>
   ((search_error + SearchResult list) \<times> kvfile) option" where
  "searchIndexes kmer k leftBound rightBound [] f results = Some (Inr results, f)"
| "searchIndexes kmer k leftBound rightBound (index # rest) f results =
    (case searchIndex kmer k leftBound rightBound index f results of
       None \<Rightarrow> None
     | Some (Inl e, f') \<Rightarrow> Some (Inl e, f')
     | Some (Inr results', f') \<Rightarrow> searchIndexes kmer k leftBound rightBound rest f' results')"

definition Search ::
  "Searcher \<Rightarrow> kvfile \<Rightarrow> uint64 \<Rightarrow> uint8 \<Rightarrow> ((search_error + SearchResult list) \<times> kvfile) option" where
  "Search scr f kmer m =
    (if maxKmer scr < kmer then Some (Inl InvalidKmer, f)
     else let k = K scr;
              m' = (if m < 1 \<or> k < m then k else m);
              bounds = searchScope k kmer m'
          in searchIndexes kmer k (fst bounds) (snd bounds) (Indexes scr) f [])"

text \<open>
  An example file for the witnesses: the stream of one mask that holds the single 5-mer 27
  with the value 7 (a last pair without second k-mer), written twice, and a searcher over
  two masks whose indexes point at the two copies.
\<close>

definition exStream :: "byte list" where
  "exStream = [192, 0, 0, 0, 1, 0, 0, 0, 0, 0, 0, 0, 0, 7]"

definition exFile :: kvfile where
  "exFile = \<lparr>fdata = exStream @ exStream, fpos = 0, freads = 0\<rparr>"

definition exSearcher :: Searcher where
  "exSearcher = NewSearcher 5 [[27, 0, 28, 14], [27, 14, 28, 28]]"


subsection \<open>Anchors and their cleaning (\<open>SubstrPair\<close>, \<open>ClearSubstrPairs\<close>)\<close>

record SubstrPair =
  QBegin :: int32
  TBegin :: int32
  Len :: uint8
  Mismatch :: uint8
  TRC :: bool
  QRC :: bool

text \<open>
  The comparator of \<open>sort.Slice\<close>, with \<open>a.QBegin+int32(a.Len)\<close> computed in \<open>int32\<close>.
  \<open>sort.Slice\<close> is not stable: among anchors that the comparator does not separate the
  order is whatever the library leaves. \<open>sortSubs\<close> is one sort by the comparator
  (insertion, stable); the properties below are also proved for every other permutation
  that the comparator orders.
\<close>

definition qEnd32 :: "SubstrPair \<Rightarrow> int32" where
  "qEnd32 a = QBegin a + ucast (Len a)"

definition tEnd32 :: "SubstrPair \<Rightarrow> int32" where
  "tEnd32 a = TBegin a + ucast (Len a)"

definition subLess :: "SubstrPair \<Rightarrow> SubstrPair \<Rightarrow> bool" where
  "subLess a b =
    (if QBegin a = QBegin b then
       (if qEnd32 a = qEnd32 b then TBegin a \<le>s TBegin b
        else qEnd32 b <s qEnd32 a)
     else QBegin a <s QBegin b)"

fun insertSub :: "SubstrPair \<Rightarrow> SubstrPair list \<Rightarrow> SubstrPair list" where
  "insertSub a [] = [a]"
| "insertSub a (b # bs) = (if subLess a b then a # b # bs else b # insertSub a bs)"

definition sortSubs :: "SubstrPair list \<Rightarrow> SubstrPair list" where
  "sortSubs subs = foldr insertSub subs []"

text \<open>
  The scan after the sort. For the anchor \<open>v\<close> at position \<open>i+1\<close> the inner loop walks back
  over the anchors before it, nearest first (\<open>prev\<close>), stops at the first one that begins
  before \<open>upbound = vQEnd - int32(k)\<close>, and marks \<open>v\<close> when it lies in one of them.
  \<open>markNested\<close> gives the markers of the anchors after the first, \<open>compact\<close> is the loop
  that keeps the unmarked ones, and \<open>dropNested\<close> is \<open>ClearSubstrPairs\<close> after the sort
  (the slice is cut only \<open>if j > 0\<close>). The recycling of marked anchors into \<open>poolSub\<close> has
  no effect on the list.
\<close>

fun lookback :: "int32 \<Rightarrow> SubstrPair \<Rightarrow> SubstrPair list \<Rightarrow> bool" where
  "lookback upbound v [] = False"
| "lookback upbound v (p # ps) =
    (if QBegin p <s upbound then False
     else if qEnd32 v \<le>s qEnd32 p \<and> TBegin p \<le>s TBegin v \<and> tEnd32 v \<le>s tEnd32 p then True
     else lookback upbound v ps)"

fun markNested :: "int32 \<Rightarrow> SubstrPair list \<Rightarrow> SubstrPair list \<Rightarrow> bool list" where
  "markNested k prev [] = []"
| "markNested k prev (v # vs) = lookback (qEnd32 v - k) v prev # markNested k (v # prev) vs"

definition compact :: "SubstrPair list \<Rightarrow> bool list \<Rightarrow> SubstrPair list" where
  "compact subs markers = map fst (filter (\<lambda>(s, embedded). \<not> embedded) (zip subs markers))"

definition dropNested :: "SubstrPair list \<Rightarrow> 64 word \<Rightarrow> SubstrPair list" where
  "dropNested sortedSubs k =
    (case sortedSubs of [] \<Rightarrow> []
     | s0 # rest \<Rightarrow>
         let markers = False # markNested (ucast k) [s0] rest;
             kept = compact sortedSubs markers
         in if kept = [] then sortedSubs else kept)"

definition ClearSubstrPairs :: "SubstrPair list \<Rightarrow> 64 word \<Rightarrow> SubstrPair list" where
  "ClearSubstrPairs subs k = (if length subs < 2 then subs else dropNested (sortSubs subs) k)"

text \<open>
  For the statements: the positions as integers, an anchor lying within another one (query
  interval and target interval), the order the claim names, no anchor of a list lying
  within another one, and the anchors of the data model: positions from 0 on, ends
  inside \<open>int32\<close>.
\<close>

definition qBegin :: "SubstrPair \<Rightarrow> int" where "qBegin a = sint (QBegin a)"
definition qEnd :: "SubstrPair \<Rightarrow> int" where "qEnd a = sint (QBegin a) + uint (Len a)"
definition tBegin :: "SubstrPair \<Rightarrow> int" where "tBegin a = sint (TBegin a)"
definition tEnd :: "SubstrPair \<Rightarrow> int" where "tEnd a = sint (TBegin a) + uint (Len a)"

definition within :: "SubstrPair \<Rightarrow> SubstrPair \<Rightarrow> bool" where
  "within v w \<longleftrightarrow> qBegin w \<le> qBegin v \<and> qEnd v \<le> qEnd w \<and> tBegin w \<le> tBegin v \<and> tEnd v \<le> tEnd w"

definition inRange :: "SubstrPair \<Rightarrow> bool" where
  "inRange a \<longleftrightarrow> 0 \<le> qBegin a \<and> qEnd a < 2 ^ 31 \<and> 0 \<le> tBegin a \<and> tEnd a < 2 ^ 31"

definition byQuery :: "SubstrPair \<Rightarrow> SubstrPair \<Rightarrow> bool" where
  "byQuery a b \<longleftrightarrow> qBegin a < qBegin b \<or> (qBegin a = qBegin b \<and> qEnd b \<le> qEnd a)"

definition noneNested :: "SubstrPair list \<Rightarrow> bool" where
  "noneNested subs \<longleftrightarrow>
    (\<forall>i < length subs. \<forall>j < length subs. i \<noteq> j \<longrightarrow> \<not> within (subs ! i) (subs ! j))"

text \<open>For the proofs: the anchors that the scan keeps, by recursion over the sorted list.\<close>

fun survivors :: "int32 \<Rightarrow> SubstrPair list \<Rightarrow> SubstrPair list \<Rightarrow> SubstrPair list" where
  "survivors k prev [] = []"
| "survivors k prev (v # vs) =
    (if lookback (qEnd32 v - k) v prev then survivors k (v # prev) vs
     else v # survivors k (v # prev) vs)"

subsection \<open>The prefilter of \<open>Index.Search\<close>\<close>

text \<open>
  The options that the prefilter reads (\<open>MaxMismatch\<close> is an \<open>int\<close>), and step 3.1 of
  \<open>Index.Search\<close> for one target: clean the anchors, drop a target with a single anchor
  that fails the test, score the others. \<open>idx.k\<close> is an \<open>int\<close>. The score adds
  \<open>float64(sub.Len * sub.Len)\<close>, a product in \<open>uint8\<close>; these are whole numbers below 256,
  which \<open>float64\<close> adds exactly, so the score is a natural number here. The targets come
  from a map, in no fixed order; they are a list here.
\<close>

record IndexSearchingOptions =
  MinPrefix :: uint8
  MaxMismatch :: "64 word"
  MinSinglePrefix :: uint8

definition checkMismatch :: "64 word \<Rightarrow> IndexSearchingOptions \<Rightarrow> bool" where
  "checkMismatch k opt \<longleftrightarrow>
     0 \<le>s MaxMismatch opt \<and> MaxMismatch opt <s k - ucast (MinPrefix opt)"

definition singleSeedDropped :: "64 word \<Rightarrow> IndexSearchingOptions \<Rightarrow> SubstrPair list \<Rightarrow> bool" where
  "singleSeedDropped k opt subs \<longleftrightarrow>
     length subs = 1 \<and>
     (if checkMismatch k opt then MaxMismatch opt <s ucast (Mismatch (subs ! 0))
      else Len (subs ! 0) < MinSinglePrefix opt)"

definition seedScore :: "SubstrPair list \<Rightarrow> nat" where
  "seedScore subs = foldl (\<lambda>score sub. score + unat (Len sub * Len sub)) 0 subs"

definition preprocessTarget ::
  "64 word \<Rightarrow> IndexSearchingOptions \<Rightarrow> SubstrPair list \<Rightarrow> (SubstrPair list \<times> nat) option" where
  "preprocessTarget k opt subs =
    (let cleaned = ClearSubstrPairs subs k
     in if singleSeedDropped k opt cleaned then None else Some (cleaned, seedScore cleaned))"

definition preprocessTargets ::
  "64 word \<Rightarrow> IndexSearchingOptions \<Rightarrow> SubstrPair list list \<Rightarrow> (SubstrPair list \<times> nat) list" where
  "preprocessTargets k opt targets = List.map_filter (preprocessTarget k opt) targets"

text \<open>Examples for the witnesses.\<close>

definition exAnchor1 :: SubstrPair where
  "exAnchor1 = \<lparr>QBegin = 10, TBegin = 100, Len = 20, Mismatch = 0, TRC = False, QRC = False\<rparr>"

definition exAnchor2 :: SubstrPair where
  "exAnchor2 = \<lparr>QBegin = 12, TBegin = 102, Len = 15, Mismatch = 1, TRC = False, QRC = False\<rparr>"

definition exAnchor3 :: SubstrPair where
  "exAnchor3 = \<lparr>QBegin = 5, TBegin = 300, Len = 31, Mismatch = 2, TRC = False, QRC = False\<rparr>"

definition exOptions :: IndexSearchingOptions where
  "exOptions = \<lparr>MinPrefix = 15, MaxMismatch = 3, MinSinglePrefix = 20\<rparr>"

definition exLongSeed :: SubstrPair where
  "exLongSeed = \<lparr>QBegin = 10, TBegin = 100, Len = 25, Mismatch = 5, TRC = False, QRC = False\<rparr>"

subsection \<open>Chainer2 (\<open>Chainer2.Chain\<close>, \<open>chainARegion\<close>)\<close>

record Chaining2Options =
  MaxGap :: int
  MinScore :: int
  MaxDistance :: int
  Band :: int

definition DefaultChaining2Options :: Chaining2Options where
  "DefaultChaining2Options = \<lparr>MaxGap = 32, MinScore = 20, MaxDistance = 50, Band = 20\<rparr>"

text \<open>
  The anchors as the chainer's file uses them: it takes \<open>QBegin\<close>, \<open>TBegin\<close> and \<open>Len\<close> of
  a \<open>SubstrPair\<close> in \<open>int\<close> arithmetic without conversions (\<open>sub.Len >= ce.options.MinScore\<close>,
  \<open>append(maxscores, (*subs)[0].Len)\<close>), so for it the three fields are \<open>int\<close>s. Go's
  \<open>int\<close> is an integer here: scores and positions stay far inside 64 bits.
\<close>

record Anchor =
  aQBegin :: int
  aTBegin :: int
  aLen :: int

text \<open>\<open>Chain2Result\<close>; its position fields carry the prefix \<open>r\<close>.\<close>

record Chain2Result =
  Chain :: "int list"
  MatchedBases :: int
  AlignedBases :: int
  rQBegin :: int
  rQEnd :: int
  rTBegin :: int
  rTEnd :: int

text \<open>The run-time panic of an index or a slice bound out of range.\<close>

datatype chain_error = IndexOutOfRange

definition distance2 :: "Anchor \<Rightarrow> Anchor \<Rightarrow> int" where
  "distance2 a b =
    (let q = aQBegin a - aQBegin b; t = aTBegin a - aTBegin b in if q > t then q else t)"

definition gap2 :: "Anchor \<Rightarrow> Anchor \<Rightarrow> int" where
  "gap2 a b =
    (let g = aQBegin a - aQBegin b - (aTBegin a - aTBegin b) in if g < 0 then - g else g)"

text \<open>
  The scores. \<open>bandLoop\<close> is the loop \<open>for _b = 1; _b <= band; _b++\<close> for the anchor \<open>i\<close>
  (with its \<open>break\<close> at \<open>j < 0\<close> and its three \<open>continue\<close>s), \<open>scoreLoop\<close> the loop
  \<open>for i = 1; i < n; i++\<close>, which appends to \<open>maxscores\<close> and \<open>maxscoresIdxs\<close> and keeps the
  largest score \<open>M\<close> with its index \<open>Mi\<close>; \<open>M\<close> starts at 0 and the score of anchor 0 is
  never compared with it.
\<close>

function bandLoop ::
  "Chaining2Options \<Rightarrow> Anchor list \<Rightarrow> int list \<Rightarrow> int \<Rightarrow> int \<Rightarrow> int \<Rightarrow> int \<Rightarrow> int \<times> int" where
  "bandLoop opt subs maxscores i b m mj =
    (if b \<le> Band opt then
       let j = i - b in
       if j < 0 then (m, mj)
       else
         let a = subs ! nat i; p = subs ! nat j in
         if aTBegin p > aTBegin a then bandLoop opt subs maxscores i (b + 1) m mj
         else if distance2 a p > MaxDistance opt then bandLoop opt subs maxscores i (b + 1) m mj
         else if gap2 a p > MaxGap opt then bandLoop opt subs maxscores i (b + 1) m mj
         else
           let s = maxscores ! nat j + aLen p - gap2 a p in
           if s \<ge> m then bandLoop opt subs maxscores i (b + 1) s j
           else bandLoop opt subs maxscores i (b + 1) m mj
     else (m, mj))"
  by pat_completeness auto
termination
  by (relation "measure (\<lambda>(opt, subs, maxscores, i, b, m, mj). nat (Band opt + 1 - b))") auto

function scoreLoop ::
  "Chaining2Options \<Rightarrow> Anchor list \<Rightarrow> int \<Rightarrow> int list \<Rightarrow> int list \<Rightarrow> int \<Rightarrow> int \<Rightarrow>
   int list \<times> int list \<times> int \<times> int" where
  "scoreLoop opt subs i maxscores maxscoresIdxs M Mi =
    (if i < int (length subs) then
       let a = subs ! nat i;
           r = bandLoop opt subs maxscores i 1 (aLen a) i;
           m = fst r; mj = snd r
       in scoreLoop opt subs (i + 1) (maxscores @ [m]) (maxscoresIdxs @ [mj])
            (if m > M then m else M) (if m > M then i else Mi)
     else (maxscores, maxscoresIdxs, M, Mi))"
  by pat_completeness auto
termination
  by (relation "measure (\<lambda>(opt, subs, i, maxscores, maxscoresIdxs, M, Mi). nat (int (length subs) - i))") auto

text \<open>
  \<open>chainARegion\<close>. The test of an anchor against the bounding boxes of the chains found
  so far (\<open>bounds\<close>, four numbers per chain); the walk back from the anchor \<open>Mi\<close> along
  \<open>maxscoresIdxs\<close>, which ends at \<open>j < 0\<close> or \<open>i == j\<close> and could go round for ever on
  indexes that form a cycle (\<open>None\<close>); the search for the largest score of a region; the
  bookkeeping for a finished chain; and the recursion into the regions right and left of
  the chain. \<open>paths\<close>, the two totals and \<open>bounds\<close> are shared through pointers in the
  source and passed along as \<open>chain_acc\<close> here.
  The slices \<open>(*subs)[Mi+1:]\<close> and \<open>(*subs)[:i]\<close> panic out of range; \<open>Chain\<close> always passes
  three slices of the same length, so that \<open>i < len(*subs)\<close> after the walk, and with other
  arguments the model ends in \<open>IndexOutOfRange\<close> where Go's bound for \<open>[:i]\<close> would be the
  capacity.
\<close>

fun overlapsBounds :: "Anchor \<Rightarrow> int list \<Rightarrow> bool" where
  "overlapsBounds sub (b0 # b1 # b2 # b3 # rest) =
    (if \<not> ((aQBegin sub > b1 \<and> aTBegin sub > b3) \<or>
            (aQBegin sub + aLen sub - 1 < b0 \<and> aTBegin sub + aLen sub - 1 < b2))
     then True else overlapsBounds sub rest)"
| "overlapsBounds sub bs = False"

record chain_walk =
  wi :: int
  wj :: int
  wChain :: "int list"
  wqb :: int
  wqe :: int
  wtb :: int
  wte :: int
  beginOfNextAnchor :: int
  firstAnchorOfAChain :: bool
  wMatchedBases :: int

partial_function (option) walkChain ::
  "Anchor list \<Rightarrow> int list \<Rightarrow> int \<Rightarrow> int list \<Rightarrow> chain_walk \<Rightarrow> (chain_error + chain_walk) option" where
  "walkChain subs maxscoresIdxs offset bounds w =
    (if wi w < 0 \<or> int (length maxscoresIdxs) \<le> wi w then Some (Inl IndexOutOfRange)
     else
       let j = maxscoresIdxs ! nat (wi w) - offset in
       if j < 0 then Some (Inr (w\<lparr>wj := j\<rparr>))
       else if int (length subs) \<le> wi w then Some (Inl IndexOutOfRange)
       else
         let sub = subs ! nat (wi w);
             w' =
               (if overlapsBounds sub bounds then w
                else if firstAnchorOfAChain w then
                  w\<lparr>wChain := wChain w @ [wi w + offset],
                    firstAnchorOfAChain := False,
                    wqe := aQBegin sub + aLen sub - 1,
                    wte := aTBegin sub + aLen sub - 1,
                    wqb := aQBegin sub, wtb := aTBegin sub,
                    wMatchedBases := wMatchedBases w + aLen sub,
                    beginOfNextAnchor := aQBegin sub\<rparr>
                else
                  w\<lparr>wChain := wChain w @ [wi w + offset],
                    wqb := aQBegin sub, wtb := aTBegin sub,
                    wMatchedBases := wMatchedBases w +
                      (if aQBegin sub + aLen sub - 1 \<ge> beginOfNextAnchor w
                       then beginOfNextAnchor w - aQBegin sub else aLen sub),
                    beginOfNextAnchor := aQBegin sub\<rparr>)
         in if wi w = j then Some (Inr (w'\<lparr>wj := j\<rparr>))
            else walkChain subs maxscoresIdxs offset bounds (w'\<lparr>wj := j, wi := j\<rparr>))"

declare walkChain.simps [code]

record chain_acc =
  paths :: "Chain2Result list"
  nMatchedBases :: int
  nAlignedBases :: int
  bounds :: "int list"

fun findMax :: "int list \<Rightarrow> int \<Rightarrow> int \<Rightarrow> int \<Rightarrow> int \<times> int" where
  "findMax [] i M Mi = (M, Mi)"
| "findMax (m # ms) i M Mi = (if m > M then findMax ms (i + 1) m i else findMax ms (i + 1) M Mi)"

definition finishChain :: "chain_walk \<Rightarrow> chain_acc \<Rightarrow> chain_acc" where
  "finishChain w acc =
    (let nAligned = wqe w - wqb w + 1;
         path = \<lparr>Chain = rev (wChain w), MatchedBases = wMatchedBases w, AlignedBases = nAligned,
                 rQBegin = wqb w, rQEnd = wqe w, rTBegin = wtb w, rTEnd = wte w\<rparr>
     in acc\<lparr>paths := paths acc @ [path],
            nAlignedBases := nAlignedBases acc + nAligned,
            nMatchedBases := nMatchedBases acc + wMatchedBases w\<rparr>)"

definition mergeBox :: "int \<times> int \<times> int \<times> int \<Rightarrow> int \<times> int \<times> int \<times> int \<times> int \<Rightarrow> int \<times> int \<times> int \<times> int" where
  "mergeBox box r =
    (case (box, r) of ((qB, qE, tB, tE), (score, qB', qE', tB', tE')) \<Rightarrow>
       if score > 0 then
         (if qB' < qB then qB' else qB, if qE' > qE then qE' else qE,
          if tB' < tB then tB' else tB, if tE' > tE then tE' else tE)
       else (qB, qE, tB, tE))"

function chainARegion ::
  "Anchor list \<Rightarrow> int list \<Rightarrow> int list \<Rightarrow> int \<Rightarrow> int \<Rightarrow> int \<Rightarrow> chain_acc \<Rightarrow>
   (chain_error + ((int \<times> int \<times> int \<times> int \<times> int) \<times> chain_acc)) option" where
  "chainARegion subs maxscores maxscoresIdxs offset minScore Mi0 acc =
    (let mx = (if Mi0 < 0 then findMax maxscores 0 0 0 else (0, Mi0));
         M = fst mx; Mi = snd mx
     in
     if Mi0 < 0 \<and> M < minScore then Some (Inr ((0, - 1, - 1, - 1, - 1), acc))
     else
       case walkChain subs maxscoresIdxs offset (bounds acc)
              \<lparr>wi = Mi, wj = 0, wChain = [], wqb = 0, wqe = 0, wtb = 0, wte = 0,
               beginOfNextAnchor = 0, firstAnchorOfAChain = True, wMatchedBases = 0\<rparr> of
         None \<Rightarrow> None
       | Some (Inl e) \<Rightarrow> Some (Inl e)
       | Some (Inr w) \<Rightarrow>
           let acc1 =
                 (if wj w < 0 then (if wChain w = [] then acc else finishChain w acc)
                  else (if firstAnchorOfAChain w then acc else finishChain w acc));
               acc2 = acc1\<lparr>bounds := bounds acc1 @ [wqb w, wqe w, wtb w, wte w]\<rparr>;
               box = (wqb w, wqe w, wtb w, wte w)
           in
           if Mi \<noteq> int (length maxscores) - 1 \<and>
              (Mi < 0 \<or> int (length subs) < Mi + 1 \<or> int (length maxscores) < Mi + 1
               \<or> int (length maxscoresIdxs) < Mi + 1)
           then Some (Inl IndexOutOfRange)
           else
             case (if Mi \<noteq> int (length maxscores) - 1
                   then (case chainARegion (drop (nat (Mi + 1)) subs) (drop (nat (Mi + 1)) maxscores)
                                (drop (nat (Mi + 1)) maxscoresIdxs) (offset + Mi + 1) minScore (- 1) acc2 of
                           None \<Rightarrow> None
                         | Some (Inl e) \<Rightarrow> Some (Inl e)
                         | Some (Inr (r, acc3)) \<Rightarrow> Some (Inr (mergeBox box r, acc3)))
                   else Some (Inr (box, acc2))) of
               None \<Rightarrow> None
             | Some (Inl e) \<Rightarrow> Some (Inl e)
             | Some (Inr (box1, acc3)) \<Rightarrow>
                 if wi w > 0 then
                   (if int (length subs) \<le> wi w then Some (Inl IndexOutOfRange)
                    else
                      case chainARegion (take (nat (wi w)) subs) (take (nat (wi w)) maxscores)
                             (take (nat (wi w)) maxscoresIdxs) offset minScore (- 1) acc3 of
                        None \<Rightarrow> None
                      | Some (Inl e) \<Rightarrow> Some (Inl e)
                      | Some (Inr (r, acc4)) \<Rightarrow>
                          (case mergeBox box1 r of (qB, qE, tB, tE) \<Rightarrow> Some (Inr ((M, qB, qE, tB, tE), acc4))))
                 else (case box1 of (qB, qE, tB, tE) \<Rightarrow> Some (Inr ((M, qB, qE, tB, tE), acc3))))"
  by pat_completeness auto
termination
  by (relation "measure (\<lambda>(subs, maxscores, maxscoresIdxs, offset, minScore, Mi0, acc). length subs)")
     auto


text \<open>
  \<open>Chainer2.Chain\<close>. The chain of the single-seed branch is an object from the pool, of
  which \<open>Reset\<close> clears only \<open>Chain\<close>: \<open>pooled\<close> is that object. An empty list panics at
  \<open>(*subs)[0]\<close>.
\<close>

definition Chainer2_Chain ::
  "Chaining2Options \<Rightarrow> Chain2Result \<Rightarrow> Anchor list \<Rightarrow>
   (chain_error + (Chain2Result list \<times> int \<times> int \<times> int \<times> int \<times> int \<times> int)) option" where
  "Chainer2_Chain opt pooled subs =
    (let n = length subs in
     if n = 1 then
       (let sub = subs ! 0 in
        if aLen sub \<ge> MinScore opt
        then Some (Inr ([pooled\<lparr>Chain := [0]\<rparr>], aLen sub, aLen sub, 0, 0, 0, 0))
        else Some (Inr ([], 0, 0, 0, 0, 0, 0)))
     else if n = 0 then Some (Inl IndexOutOfRange)
     else
       (case scoreLoop opt subs 1 [aLen (subs ! 0)] [0] 0 0 of
          (maxscores, maxscoresIdxs, M, Mi) \<Rightarrow>
            if M < 100 then Some (Inr ([], 0, 0, 0, 0, 0, 0))
            else
              (case chainARegion subs maxscores maxscoresIdxs 0 (MinScore opt) Mi
                      \<lparr>paths = [], nMatchedBases = 0, nAlignedBases = 0, bounds = []\<rparr> of
                 None \<Rightarrow> None
               | Some (Inl e) \<Rightarrow> Some (Inl e)
               | Some (Inr ((score, qB, qE, tB, tE), acc)) \<Rightarrow>
                   Some (Inr (paths acc, nMatchedBases acc, nAlignedBases acc, qB, qE, tB, tE)))))"

text \<open>For the statements: the scores \<open>maxscores\<close> and the maximum \<open>M\<close> that \<open>Chain\<close> computes.\<close>

definition dpScores :: "Chaining2Options \<Rightarrow> Anchor list \<Rightarrow> int list" where
  "dpScores opt subs = fst (scoreLoop opt subs 1 [aLen (subs ! 0)] [0] 0 0)"

definition dpMaximum :: "Chaining2Options \<Rightarrow> Anchor list \<Rightarrow> int" where
  "dpMaximum opt subs = fst (snd (snd (scoreLoop opt subs 1 [aLen (subs ! 0)] [0] 0 0)))"

text \<open>Examples for the witnesses.\<close>

definition exPooled :: Chain2Result where
  "exPooled = \<lparr>Chain = [], MatchedBases = 0, AlignedBases = 0,
                rQBegin = 0, rQEnd = 0, rTBegin = 0, rTEnd = 0\<rparr>"

definition exSeed :: "int \<Rightarrow> int \<Rightarrow> int \<Rightarrow> Anchor" where
  "exSeed q t l = \<lparr>aQBegin = q, aTBegin = t, aLen = l\<rparr>"

section \<open>Properties\<close>

subsection \<open>Reverse complement\<close>

declare RC_complement.simps [simp del] RC_swap.simps [simp del]

lemma RC_complement_eq:
  "n = length s \<Longrightarrow> i \<le> n \<Longrightarrow>
   RC_complement s i n = take i s @ map (\<lambda>b. rcTable ! unat b) (drop i s)"
proof (induction s i n rule: RC_complement.induct)
  case (1 s i n)
  show ?case
  proof (cases "i < n")
    case True
    let ?s' = "s[i := rcTable ! unat (s ! i)]"
    have "RC_complement s i n = RC_complement ?s' (i + 1) n"
      using True by (subst RC_complement.simps) simp
    also have "\<dots> = take (i + 1) ?s' @ map (\<lambda>b. rcTable ! unat b) (drop (i + 1) ?s')"
      using True 1 by simp
    also have "\<dots> = take i s @ map (\<lambda>b. rcTable ! unat b) (drop i s)"
      using True 1(2)
      by (simp add: take_Suc_conv_app_nth Cons_nth_drop_Suc [symmetric])
    finally show ?thesis .
  next
    case False
    then show ?thesis using 1(2,3) by (subst RC_complement.simps) simp
  qed
qed

lemma RC_swap_length: "length (RC_swap s i j) = length s"
  by (induction s i j rule: RC_swap.induct) (subst RC_swap.simps, simp)

lemma RC_swap_nth:
  "0 \<le> i \<Longrightarrow> j < int (length s) \<Longrightarrow> k < length s \<Longrightarrow>
   RC_swap s i j ! k = (if i \<le> int k \<and> int k \<le> j then s ! nat (i + j - int k) else s ! k)"
proof (induction s i j arbitrary: k rule: RC_swap.induct)
  case (1 s i j)
  show ?case
  proof (cases "i < j")
    case True
    let ?s' = "s[nat i := s ! nat j, nat j := s ! nat i]"
    have step: "RC_swap s i j = RC_swap ?s' (i + 1) (j - 1)"
      using True by (subst RC_swap.simps) simp
    have ih: "RC_swap ?s' (i + 1) (j - 1) ! k =
        (if i + 1 \<le> int k \<and> int k \<le> j - 1 then ?s' ! nat (i + 1 + (j - 1) - int k) else ?s' ! k)"
      using 1(1) [OF True, of k] 1(2,3,4) by simp
    show ?thesis
      unfolding step ih using True 1(2,3,4)
      by (auto simp add: nth_list_update nat_eq_iff)
  next
    case False
    have "RC_swap s i j = s" using False by (subst RC_swap.simps) simp
    moreover have "i \<le> int k \<and> int k \<le> j \<Longrightarrow> nat (i + j - int k) = k"
      using False by linarith
    ultimately show ?thesis by auto
  qed
qed

lemma RC_swap_rev: "RC_swap s 0 (int (length s) - 1) = rev s"
proof (rule nth_equalityI)
  show "length (RC_swap s 0 (int (length s) - 1)) = length (rev s)"
    by (simp add: RC_swap_length)
next
  fix k assume "k < length (RC_swap s 0 (int (length s) - 1))"
  then have k: "k < length s" by (simp add: RC_swap_length)
  have "nat (int (length s) - 1 - int k) = length s - Suc k" using k by linarith
  then show "RC_swap s 0 (int (length s) - 1) ! k = rev s ! k"
    using k by (simp add: RC_swap_nth rev_nth)
qed

lemma RC_eq: "RC s = rev (map (\<lambda>b. rcTable ! unat b) s)"
  using RC_swap_rev [of "map (\<lambda>b. rcTable ! unat b) s"]
  by (simp add: RC_def RC_complement_eq)

lemma rcTable_of_nat: "rcTable = map of_nat rcTable_nat"
  by (simp add: rcTable_def rcTable_nat_def)

lemma rcTable_nat_complement: "rcTable_nat = map complement_nat [0..<256]"
  unfolding rcTable_nat_def complement_nat_def by code_simp

lemma complement_nat_less: "n < 256 \<Longrightarrow> complement_nat n < 256"
  by (simp add: complement_nat_def)

lemma complement_nat_involution: "complement_nat (complement_nat n) = n"
  by (simp add: complement_nat_def)

lemma rcTable_complement: "unat (rcTable ! unat b) = complement_nat (unat b)" for b :: byte
proof -
  have l: "unat b < 256" using unsigned_less [of b] by simp
  then have "rcTable ! unat b = of_nat (complement_nat (unat b))"
    by (simp add: rcTable_of_nat rcTable_nat_complement del: upt.simps)
  then show ?thesis using complement_nat_less [OF l] by (simp add: unat_of_nat)
qed

lemma rcTable_involution: "rcTable ! unat (rcTable ! unat b) = b" for b :: byte
proof -
  have "unat (rcTable ! unat (rcTable ! unat b)) = complement_nat (unat (rcTable ! unat b))"
    by (rule rcTable_complement)
  also have "\<dots> = unat b"
    by (simp only: rcTable_complement complement_nat_involution)
  finally show ?thesis by (simp only: word_unat_eq_iff)
qed

lemma rcTable_fixes_others:
  fixes b :: byte
  assumes "b \<notin> set iupac_letters"
  shows "rcTable ! unat b = b"
proof -
  have ne: "unat b \<noteq> unat c" if "c \<in> set iupac_letters" for c :: byte
    using assms that by (metis word_unat_eq_iff)
  have "complement_nat (unat b) = unat b"
    unfolding complement_nat_def
    using ne [of 65] ne [of 67] ne [of 71] ne [of 84] ne [of 66] ne [of 68] ne [of 72] ne [of 75]
      ne [of 77] ne [of 82] ne [of 86] ne [of 89] ne [of 97] ne [of 99] ne [of 103] ne [of 116]
      ne [of 98] ne [of 100] ne [of 104] ne [of 107] ne [of 109] ne [of 114] ne [of 118] ne [of 121]
    by (simp add: iupac_letters_def)
  then show ?thesis
    by (intro word_unat_eq_iff [THEN iffD2]) (simp add: rcTable_complement)
qed

lemma RC_involution: "RC (RC s) = s"
  by (simp add: RC_eq rev_map o_def rcTable_involution)

text \<open>
  Claim C8, as stated: \<open>rcTable[b] = b\<close> for every byte that is not one of A, C, G, T, a, c, g, t.
  The table also complements the IUPAC ambiguity codes (B/V, D/H, K/M, R/Y and their lower
  case), so the byte \<open>B\<close> (66) is not one of the eight letters and is mapped to \<open>V\<close> (86).
\<close>

theorem rcTable_identity_outside_acgt_counterexample:
  "(66 :: byte) \<notin> set acgt_letters \<and> rcTable ! unat (66 :: byte) = 86
     \<and> rcTable ! unat (66 :: byte) \<noteq> 66"
  by (simp add: acgt_letters_def rcTable_def)

text \<open>
  Claim C8, amended: \<open>rcTable[rcTable[b]] = b\<close> for every byte \<open>b\<close>; \<open>rcTable[b] = b\<close> for
  every byte that is not one of the 24 letters A, C, G, T, B, D, H, K, M, R, V, Y in either
  case; and \<open>RC(RC(s)) = s\<close> for every byte sequence \<open>s\<close>.
\<close>

theorem rcTable_involution_RC_involution:
  fixes b :: byte
  shows "rcTable ! unat (rcTable ! unat b) = b
   \<and> (b \<notin> set iupac_letters \<longrightarrow> rcTable ! unat b = b)
   \<and> RC (RC s) = s"
  using rcTable_involution rcTable_fixes_others RC_involution by blast

theorem rcTable_involution_RC_involution_witness:
  "(78 :: byte) \<notin> set iupac_letters \<and> rcTable ! unat (78 :: byte) = 78
   \<and> rcTable ! unat (rcTable ! unat (66 :: byte)) = 66
   \<and> RC (RC [65, 67, 78, 66]) = [65, 67, 78, 66]"
proof -
  have n: "(78 :: byte) \<notin> set iupac_letters" by (simp add: iupac_letters_def)
  show ?thesis
    using n rcTable_involution_RC_involution [of 78 "[65, 67, 78, 66]"]
      rcTable_involution_RC_involution [of 66 "[]"]
    by simp
qed

subsection \<open>Packed k-mer locations\<close>

lemma mask17: "(131071 :: 64 word) = mask 17"
  by (simp add: mask_eq_exp_minus_1)

lemma mask30: "(1073741823 :: 64 word) = mask 30"
  by (simp add: mask_eq_exp_minus_1)

lemma take_bit_word_self: "w < 2 ^ n \<Longrightarrow> take_bit n w = w" for w :: "'a::len word"
  by (simp add: take_bit_eq_mask less_mask_eq)

text \<open>
  Claim C5: for batch < 2^17, reference index < 2^17 and location < 2^30 (position shifted
  left by one, or-ed with the strand bit), the packed value holds the batch in bits 63..47,
  the reference index in bits 46..30, the position in bits 29..1 and the strand in bit 0,
  and \<open>parseKmerValue\<close> returns (batch, reference index, position, strand).
\<close>

theorem parseKmerValue_packKmerValue:
  fixes batch loc :: "64 word" and refIdx :: "32 word"
  assumes b: "batch < 2 ^ 17" and r: "refIdx < 2 ^ 17" and l: "loc < 2 ^ 30"
  shows "drop_bit 47 (packKmerValue batch refIdx loc) = batch
    \<and> take_bit 17 (drop_bit 30 (packKmerValue batch refIdx loc)) = ucast refIdx
    \<and> take_bit 29 (drop_bit 1 (packKmerValue batch refIdx loc)) = drop_bit 1 loc
    \<and> take_bit 1 (packKmerValue batch refIdx loc) = take_bit 1 loc
    \<and> parseKmerValue (packKmerValue batch refIdx loc)
        = (batch, ucast refIdx, drop_bit 1 loc, loc AND 1)"
proof -
  define v where "v = packKmerValue batch refIdx loc"
  have B: "batch = take_bit 17 batch" using b by (simp add: take_bit_word_self)
  have R: "refIdx = take_bit 17 refIdx" using r by (simp add: take_bit_word_self)
  have L: "loc = take_bit 30 loc" using l by (simp add: take_bit_word_self)
  have bb: "\<And>n. bit batch n \<Longrightarrow> n < 17" by (subst (asm) B) (simp add: bit_simps)
  have rr: "\<And>n. bit refIdx n \<Longrightarrow> n < 17" by (subst (asm) R) (simp add: bit_simps)
  have ll: "\<And>n. bit loc n \<Longrightarrow> n < 30" by (subst (asm) L) (simp add: bit_simps)
  have 1: "drop_bit 47 v = batch"
    unfolding v_def packKmerValue_def mask17 mask30
    by (rule bit_word_eqI) (auto simp add: bit_simps dest: bb rr ll)
  have 2: "take_bit 17 (drop_bit 30 v) = ucast refIdx"
    unfolding v_def packKmerValue_def mask17 mask30
    by (rule bit_word_eqI) (auto simp add: bit_simps dest: bb rr ll)
  have 3: "take_bit 29 (drop_bit 1 v) = drop_bit 1 loc"
    unfolding v_def packKmerValue_def mask17 mask30
    by (rule bit_word_eqI) (auto simp add: bit_simps dest: bb rr ll)
  have 4: "take_bit 1 v = take_bit 1 loc"
    unfolding v_def packKmerValue_def mask17 mask30
    by (rule bit_word_eqI) (auto simp add: bit_simps dest: bb rr ll)
  have 5: "drop_bit 47 (push_bit 17 v) = ucast refIdx"
    unfolding v_def packKmerValue_def mask17 mask30
    by (rule bit_word_eqI) (auto simp add: bit_simps dest: bb rr ll)
  have 6: "drop_bit 35 (push_bit 34 v) = drop_bit 1 loc"
    unfolding v_def packKmerValue_def mask17 mask30
    by (rule bit_word_eqI) (auto simp add: bit_simps dest: bb rr ll)
  have 7: "v AND 1 = loc AND 1"
    unfolding v_def packKmerValue_def mask17 mask30
    by (rule bit_word_eqI) (auto simp add: bit_simps dest: bb rr ll)
  have "parseKmerValue v = (batch, ucast refIdx, drop_bit 1 loc, loc AND 1)"
    by (simp add: parseKmerValue_def 1 5 6 7)
  with 1 2 3 4 show ?thesis unfolding v_def by simp
qed

text \<open>Batch 3, reference 5, position 1000 on the reverse strand (location 2001).\<close>

theorem parseKmerValue_packKmerValue_witness:
  "(3 :: 64 word) < 2 ^ 17 \<and> (5 :: 32 word) < 2 ^ 17 \<and> (2001 :: 64 word) < 2 ^ 30
   \<and> parseKmerValue (packKmerValue 3 5 2001) = (3, 5, 1000, 1)"
proof -
  have h: "(3 :: 64 word) < 2 ^ 17" "(5 :: 32 word) < 2 ^ 17" "(2001 :: 64 word) < 2 ^ 30"
    by simp_all
  show ?thesis
    using h parseKmerValue_packKmerValue [OF h] by simp
qed

subsection \<open>Varint pair codec\<close>

lemma byteLength_cases: "byteLength v \<in> {1, 2, 3, 4, 5, 6, 7, 8}"
  by (simp add: byteLength_def)

lemma byteLength_take_bit: "take_bit (8 * byteLength v) v = v"
  by (auto simp add: byteLength_def take_bit_word_self take_bit_word_eq_self)

lemma putLittleEndian_Suc:
  "putLittleEndian (Suc n) v = ucast v # putLittleEndian n (drop_bit 8 v)"
proof -
  have "[0..<Suc n] = 0 # map Suc [0..<n]"
    by (simp add: upt_conv_Cons map_Suc_upt del: upt_Suc)
  then show ?thesis
    by (simp add: putLittleEndian_def drop_bit_drop_bit o_def add.commute del: upt_Suc)
qed

lemma littleEndian_putLittleEndian:
  "littleEndian (putLittleEndian n v) = take_bit (8 * n) v"
proof (induction n arbitrary: v)
  case 0
  then show ?case by (simp add: putLittleEndian_def littleEndian_def)
next
  case (Suc n)
  have "littleEndian (putLittleEndian (Suc n) v)
      = ucast (ucast v :: byte) OR push_bit 8 (littleEndian (putLittleEndian n (drop_bit 8 v)))"
    by (simp add: putLittleEndian_Suc littleEndian_def)
  also have "\<dots> = ucast (ucast v :: byte) OR push_bit 8 (take_bit (8 * n) (drop_bit 8 v))"
    by (simp only: Suc.IH)
  also have "\<dots> = take_bit (8 * Suc n) v"
    by (rule bit_word_eqI) (auto simp add: bit_simps)
  finally show ?case .
qed

lemma length_putLittleEndian: "length (putLittleEndian n v) = n"
  by (simp add: putLittleEndian_def)

lemma ctrl_value:
  assumes "a \<in> {1, 2, 3, 4, 5, 6, 7, 8 :: nat}" and "b \<in> {1, 2, 3, 4, 5, 6, 7, 8 :: nat}"
  shows "unat (push_bit 3 (of_nat (a - 1)) OR of_nat (b - 1) :: byte) = 8 * (a - 1) + (b - 1)"
  using assms by auto

lemma CtrlByte2ByteLengths_nth:
  "n < 64 \<Longrightarrow> CtrlByte2ByteLengths ! n = (of_nat (n div 8 + 1), of_nat (n mod 8 + 1))"
  unfolding CtrlByte2ByteLengths_def by (simp only: nth_map length_upt nth_upt) simp

lemma table_lookup:
  assumes "a \<in> {1, 2, 3, 4, 5, 6, 7, 8 :: nat}" and "b \<in> {1, 2, 3, 4, 5, 6, 7, 8 :: nat}"
  shows "CtrlByte2ByteLengths ! (8 * (a - 1) + (b - 1)) = (of_nat a, of_nat b)"
proof -
  have l: "8 * (a - 1) + (b - 1) < 64" using assms by auto
  have d: "(8 * (a - 1) + (b - 1)) div 8 + 1 = a" and m: "(8 * (a - 1) + (b - 1)) mod 8 + 1 = b"
    using assms by auto
  show ?thesis
    by (simp only: CtrlByte2ByteLengths_nth [OF l] d m)
qed

lemma unat_small: "a \<in> {1, 2, 3, 4, 5, 6, 7, 8 :: nat} \<Longrightarrow> unat (of_nat a :: uint8) = a"
  by auto

text \<open>
  Claim C2: for all 64-bit \<open>x\<close> and \<open>y\<close>, \<open>Uint64s\<close> applied to the control byte and the
  bytes written by \<open>PutUint64s\<close> returns \<open>(x, y)\<close> (and a non-zero count, as the test checks).
\<close>

theorem Uint64s_PutUint64s:
  "Uint64s (fst (PutUint64s x y)) (snd (PutUint64s x y))
     = Some ((x, y), length (snd (PutUint64s x y)))
   \<and> 0 < length (snd (PutUint64s x y))"
proof -
  define a where "a = byteLength x"
  define b where "b = byteLength y"
  have a: "a \<in> {1, 2, 3, 4, 5, 6, 7, 8}" and b: "b \<in> {1, 2, 3, 4, 5, 6, 7, 8}"
    unfolding a_def b_def by (rule byteLength_cases)+
  have c: "unat (fst (PutUint64s x y)) = 8 * (a - 1) + (b - 1)"
    unfolding PutUint64s_def fst_conv a_def [symmetric] b_def [symmetric]
    by (rule ctrl_value [OF a b])
  have lt: "\<not> 64 \<le> unat (fst (PutUint64s x y))"
    unfolding c using a b by auto
  have t: "CtrlByte2ByteLengths ! unat (fst (PutUint64s x y)) = (of_nat a, of_nat b)"
    unfolding c by (rule table_lookup [OF a b])
  have buf: "snd (PutUint64s x y) = putLittleEndian a x @ putLittleEndian b y"
    by (simp add: PutUint64s_def a_def b_def)
  have x: "littleEndian (putLittleEndian a x) = x" and y: "littleEndian (putLittleEndian b y) = y"
    unfolding a_def b_def by (simp_all only: littleEndian_putLittleEndian byteLength_take_bit)
  have "0 < a" using a by auto
  then show ?thesis
    unfolding Uint64s_def Let_def t buf
    using lt by (simp add: unat_small [OF a] unat_small [OF b] length_putLittleEndian x y)
qed

subsection \<open>Seed store searcher: the invalid k-mer error and the minimum prefix\<close>

lemma findAnchor_Some:
  "findAnchor index leftBound b e = Some r \<Longrightarrow> r = Inl Panic \<or> (\<exists>i. r = Inr i)"
proof (induction rule: findAnchor.raw_induct [rotated 1, consumes 1])
  case (1 findAnchor index leftBound b0 e0 r)
  then show ?case
    by (auto simp add: Let_def split: if_splits)
qed

lemma findAnchor_error:
  "findAnchor index leftBound b e = Some (Inl err) \<Longrightarrow> err = Panic"
  by (drule findAnchor_Some) auto

lemma unat_2p64: "n < 64 \<Longrightarrow> unat (push_bit n 1 :: uint64) = 2 ^ n"
proof -
  assume n: "n < 64"
  have "(push_bit n 1 :: uint64) = of_nat (2 ^ n)" by (simp add: push_bit_eq_mult)
  then have "unat (push_bit n 1 :: uint64) = 2 ^ n mod 2 ^ 64"
    by (simp only: unat_of_nat) simp
  moreover have "(2 :: nat) ^ n < 2 ^ 64" using n by (intro power_strict_increasing) auto
  ultimately show ?thesis by simp
qed

lemma ReadFull_error: "ReadFull f n = (Inl e, f') \<Longrightarrow> e \<noteq> InvalidKmer"
  by (auto simp add: ReadFull_def Let_def split: if_splits)

lemma readValues_error: "readValues f n = (Inl e, f') \<Longrightarrow> e \<noteq> InvalidKmer"
proof (induction n arbitrary: f)
  case 0
  then show ?case by simp
next
  case (Suc n)
  then show ?case
    by (auto split: prod.splits sum.splits dest: ReadFull_error)
qed

lemma readKmerFrame_error: "readKmerFrame f = (Inl e, f') \<Longrightarrow> e \<noteq> InvalidKmer"
  by (auto simp add: readKmerFrame_def Let_def split: prod.splits sum.splits option.splits if_splits
      dest: ReadFull_error)

lemma readLengthFrame_error: "readLengthFrame f = (Inl e, f') \<Longrightarrow> e \<noteq> InvalidKmer"
  by (auto simp add: readLengthFrame_def Let_def split: prod.splits sum.splits option.splits if_splits
      dest: ReadFull_error)

lemma scanPair_error:
  assumes "scanPair kmer k lb rb ik first f found offs results = Fail e f'"
  shows "e \<noteq> InvalidKmer"
proof -
  obtain r2 f2 where k: "readKmerFrame f = (r2, f2)" by (cases "readKmerFrame f")
  show ?thesis
  proof (cases r2)
    case (Inl e2)
    with assms k readKmerFrame_error [of f e2 f2] show ?thesis by (simp add: scanPair_def)
  next
    case (Inr t)
    obtain lastPair hasKmer2 d0 d1 where t: "t = (lastPair, hasKmer2, d0, d1)" by (cases t)
    obtain r4 f4 where l: "readLengthFrame f2 = (r4, f4)" by (cases "readLengthFrame f2")
    show ?thesis
    proof (cases r4)
      case (Inl e4)
      with assms k Inr t l readLengthFrame_error [of f2 e4 f4] show ?thesis
        by (auto simp add: scanPair_def Let_def split: if_splits)
    next
      case r4: (Inr t4)
      obtain lenVal1 lenVal2 where t4: "t4 = (lenVal1, lenVal2)" by (cases t4)
      obtain r5 f5 where v1: "readValues f4 (unat lenVal1) = (r5, f5)"
        by (cases "readValues f4 (unat lenVal1)")
      show ?thesis
      proof (cases r5)
        case (Inl e5)
        with assms k Inr t l r4 t4 v1 readValues_error [of f4 "unat lenVal1" e5 f5] show ?thesis
          by (auto simp add: scanPair_def Let_def split: if_splits)
      next
        case r5: (Inr vals1)
        obtain r6 f6 where v2: "readValues f5 (unat lenVal2) = (r6, f6)"
          by (cases "readValues f5 (unat lenVal2)")
        show ?thesis
        proof (cases r6)
          case (Inl e6)
          with assms k Inr t l r4 t4 v1 r5 v2 readValues_error [of f5 "unat lenVal2" e6 f6] show ?thesis
            by (auto simp add: scanPair_def Let_def split: if_splits)
        next
          case r6: (Inr vals2)
          with assms k Inr t l r4 t4 v1 r5 v2 show ?thesis
            by (auto simp add: scanPair_def Let_def split: if_splits)
        qed
      qed
    qed
  qed
qed

lemma scan_error:
  "scan kmer k lb rb ik first f found offs results = (Inl e, f') \<Longrightarrow> e \<noteq> InvalidKmer"
proof (induction kmer k lb rb ik first f found offs results rule: scan.induct)
  case (1 kmer k lb rb ik first f found offs results)
  show ?case
  proof (cases "scanPair kmer k lb rb ik first f found offs results")
    case (Break rs f1)
    with 1(2) show ?thesis by (simp add: scan.simps)
  next
    case (Fail e1 f1)
    with 1(2) scanPair_error [OF Fail] show ?thesis by (simp add: scan.simps)
  next
    case (Next f1 found1 offs1 rs1)
    with 1(2) have "scan kmer k lb rb ik False f1 found1 offs1 rs1 = (Inl e, f')"
      by (simp add: scan.simps)
    from 1(1) [OF Next this] show ?thesis .
  qed
qed

lemma searchIndex_error:
  "searchIndex kmer k lb rb index f results = Some (Inl e, f') \<Longrightarrow> e \<noteq> InvalidKmer"
  by (auto simp add: searchIndex_def split: option.splits sum.splits if_splits
      dest: findAnchor_error scan_error)

lemma searchIndexes_error:
  "searchIndexes kmer k lb rb indexes f results = Some (Inl e, f') \<Longrightarrow> e \<noteq> InvalidKmer"
proof (induction indexes arbitrary: f results)
  case Nil
  then show ?case by simp
next
  case (Cons index rest)
  then show ?case
    by (auto split: option.splits sum.splits prod.splits dest: searchIndex_error)
qed

lemma maxKmer_NewSearcher:
  assumes "unat k < 128"
  shows "maxKmer (NewSearcher k indexes) < kmer \<longleftrightarrow> 2 ^ (2 * unat k) \<le> unat kmer"
proof -
  have s: "unat (push_bit 1 k :: uint8) = 2 * unat k"
    using assms by (simp add: unat_word_ariths push_bit_eq_mult)
  have mk: "maxKmer (NewSearcher k indexes) = push_bit (2 * unat k) 1 - 1"
    unfolding NewSearcher_def s by simp
  show ?thesis
  proof (cases "2 * unat k < 64")
    case True
    then have p: "unat (push_bit (2 * unat k) 1 :: uint64) = 2 ^ (2 * unat k)"
      by (rule unat_2p64)
    then have "push_bit (2 * unat k) 1 \<noteq> (0 :: uint64)"
      by (metis power_not_zero unsigned_0 zero_neq_numeral)
    from unat_minus_one [OF this]
    have "unat (maxKmer (NewSearcher k indexes)) = 2 ^ (2 * unat k) - 1"
      by (simp only: p mk)
    moreover have "(0 :: nat) < 2 ^ (2 * unat k)" by simp
    ultimately show ?thesis
      unfolding word_less_nat_alt by linarith
  next
    case False
    then have z: "(push_bit (2 * unat k) 1 :: uint64) = 0"
      by (simp add: push_bit_eq_mult)
    have "unat kmer < 2 ^ 64" using unsigned_less [of kmer] by simp
    also have "(2 :: nat) ^ 64 \<le> 2 ^ (2 * unat k)"
      using False by (intro power_increasing) auto
    finally have "\<not> 2 ^ (2 * unat k) \<le> unat kmer" by simp
    moreover have "\<not> (- 1 :: uint64) < kmer"
      by (simp add: not_less)
    ultimately show ?thesis
      unfolding mk z by simp
  qed
qed

text \<open>A chunk of two masks, both holding the 5-mer 27 with the single value 7.\<close>

lemma Search_example:
  "Search exSearcher exFile 27 5 = Some
    (Inr [\<lparr>Kmer = 27, LenPrefix = 5, Values = [7]\<rparr>,
          \<lparr>Kmer = 27, LenPrefix = 5, Values = [7]\<rparr>],
     \<lparr>fdata = exStream @ exStream, fpos = 28, freads = 10\<rparr>)"
  unfolding exSearcher_def exFile_def exStream_def
  by code_simp

text \<open>
  Claim C9: \<open>Search\<close> returns the invalid-kmer error exactly if the query is at least
  \<open>2^(2k)\<close>; the error is a returned value, and the file is as before (no read, no seek).
  The k-mer size is a \<open>uint8\<close>; the statement holds for every \<open>k < 128\<close>, which includes
  the data model's \<open>3 \<le> k \<le> 32\<close> (from 128 on \<open>k<<1\<close> wraps around).
\<close>

theorem Search_InvalidKmer_iff:
  assumes "unat k < 128"
  shows "((\<exists>f'. Search (NewSearcher k indexes) f kmer m = Some (Inl InvalidKmer, f'))
           \<longleftrightarrow> 2 ^ (2 * unat k) \<le> unat kmer)
       \<and> (2 ^ (2 * unat k) \<le> unat kmer
           \<longrightarrow> Search (NewSearcher k indexes) f kmer m = Some (Inl InvalidKmer, f))"
  using maxKmer_NewSearcher [OF assms, of indexes kmer]
  by (auto simp add: Search_def Let_def dest: searchIndexes_error)

theorem Search_InvalidKmer_iff_witness:
  "unat (5 :: uint8) < 128 \<and> (2 :: nat) ^ (2 * unat (5 :: uint8)) \<le> unat (1024 :: uint64)
   \<and> Search (NewSearcher 5 [[27, 0, 28, 14], [27, 14, 28, 28]]) exFile 1024 3
       = Some (Inl InvalidKmer, exFile)
   \<and> \<not> (2 :: nat) ^ (2 * unat (5 :: uint8)) \<le> unat (27 :: uint64)
   \<and> (\<nexists>f'. Search (NewSearcher 5 [[27, 0, 28, 14], [27, 14, 28, 28]]) exFile 27 5
             = Some (Inl InvalidKmer, f'))"
proof -
  have h: "unat (5 :: uint8) < 128" by simp
  show ?thesis
    using h Search_InvalidKmer_iff [OF h, of "[[27, 0, 28, 14], [27, 14, 28, 28]]" exFile 1024 3]
      Search_InvalidKmer_iff [OF h, of "[[27, 0, 28, 14], [27, 14, 28, 28]]" exFile 27 5]
    by simp
qed



subsection \<open>Cleaning the anchors\<close>

lemma sint_ucast_Len: "sint (ucast (l :: uint8) :: int32) = uint l"
proof -
  have "uint l < 2 ^ 8" using uint_bounded [of l] by simp
  then have "uint l < 2 ^ 31" by simp
  moreover have "- (2 ^ 31) \<le> uint l"
    by (rule order_trans [of _ 0]) simp_all
  ultimately have "signed_take_bit 31 (uint l) = uint l"
    by (intro signed_take_bit_int_eq_self) simp_all
  then show ?thesis
    by (simp add: signed_ucast_eq)
qed

lemma sint_add_Len:
  fixes x :: int32 and l :: uint8
  assumes "sint x + uint l < 2 ^ 31"
  shows "sint (x + ucast l) = sint x + uint l"
proof -
  have "- (2 ^ 31) \<le> sint x" using sint_ge [of x] by simp
  moreover have "0 \<le> uint l" by simp
  ultimately have "- (2 ^ 31) \<le> sint x + uint l" by linarith
  with assms show ?thesis
    by (simp add: sint_word_ariths sint_ucast_Len signed_take_bit_int_eq_self)
qed

lemma sint_qEnd32: "inRange a \<Longrightarrow> sint (qEnd32 a) = qEnd a"
  by (simp add: inRange_def qEnd32_def qEnd_def sint_add_Len)

lemma sint_tEnd32: "inRange a \<Longrightarrow> sint (tEnd32 a) = tEnd a"
  by (simp add: inRange_def tEnd32_def tEnd_def sint_add_Len)

lemma sint_eq_iff: "sint x = sint y \<longleftrightarrow> x = y" for x y :: "'a::len word"
  by (auto intro: signed_word_eqI)

lemma subLess_total: "\<not> subLess a b \<Longrightarrow> subLess b a"
  by (auto simp add: subLess_def word_sle_eq word_sless_alt sint_eq_iff [symmetric] split: if_splits)

lemma subLess_trans: "subLess a b \<Longrightarrow> subLess b c \<Longrightarrow> subLess a c"
  unfolding subLess_def word_sle_eq word_sless_alt sint_eq_iff [symmetric]
  by (auto split: if_splits)

lemma set_insertSub: "set (insertSub a xs) = insert a (set xs)"
  by (induction xs) auto

lemma mset_insertSub: "mset (insertSub a xs) = add_mset a (mset xs)"
  by (induction xs) auto

lemma sorted_insertSub: "sorted_wrt subLess xs \<Longrightarrow> sorted_wrt subLess (insertSub a xs)"
proof (induction xs)
  case Nil
  then show ?case by simp
next
  case (Cons b bs)
  then show ?case
    by (auto simp add: set_insertSub dest: subLess_total intro: subLess_trans)
qed

lemma mset_sortSubs: "mset (sortSubs subs) = mset subs"
  unfolding sortSubs_def by (induction subs) (simp_all add: mset_insertSub)

lemma sorted_sortSubs: "sorted_wrt subLess (sortSubs subs)"
  unfolding sortSubs_def by (induction subs) (simp_all add: sorted_insertSub)

lemma compact_markNested: "compact vs (markNested k prev vs) = survivors k prev vs"
  by (induction vs arbitrary: prev) (simp_all add: compact_def)

lemma dropNested_survivors: "dropNested ys k = survivors (ucast k) [] ys"
proof (cases ys)
  case Nil
  then show ?thesis by (simp add: dropNested_def)
next
  case (Cons s0 rest)
  have "compact (s0 # rest) (False # markNested (ucast k) [s0] rest)
      = s0 # survivors (ucast k) [s0] rest"
    using compact_markNested [of rest "ucast k" "[s0]"] by (simp add: compact_def)
  then show ?thesis
    using Cons by (simp add: dropNested_def)
qed

lemma set_survivors: "set (survivors k prev vs) \<subseteq> set vs"
  by (induction vs arbitrary: prev) auto

lemma sorted_wrt_survivors: "sorted_wrt R vs \<Longrightarrow> sorted_wrt R (survivors k prev vs)"
proof (induction vs arbitrary: prev)
  case Nil
  then show ?case by simp
next
  case (Cons v vs)
  then show ?case using set_survivors [of k "v # prev" vs] by auto
qed

lemma lookback_complete:
  assumes "sorted_wrt (\<lambda>a b. QBegin b \<le>s QBegin a) prev" and "p \<in> set prev"
    and "\<not> QBegin p <s ub"
    and "qEnd32 v \<le>s qEnd32 p \<and> TBegin p \<le>s TBegin v \<and> tEnd32 v \<le>s tEnd32 p"
  shows "lookback ub v prev"
  using assms(1,2)
proof (induction prev)
  case Nil
  then show ?case by simp
next
  case (Cons q ps)
  show ?case
  proof (cases "p = q")
    case True
    with assms(3,4) show ?thesis by simp
  next
    case False
    with Cons.prems have p: "p \<in> set ps" and le: "QBegin p \<le>s QBegin q" by auto
    from le assms(3) have "\<not> QBegin q <s ub"
      by (simp add: word_sle_eq word_sless_alt)
    moreover from Cons.IH Cons.prems(1) p have "lookback ub v ps" by simp
    ultimately show ?thesis by simp
  qed
qed

lemma subLess_QBegin: "subLess a b \<Longrightarrow> QBegin a \<le>s QBegin b"
  by (auto simp add: subLess_def word_sle_eq word_sless_alt split: if_splits)

lemma subLess_int:
  assumes "inRange a" and "inRange b"
  shows "subLess a b \<longleftrightarrow>
    (if qBegin a = qBegin b then (if qEnd a = qEnd b then tBegin a \<le> tBegin b else qEnd b < qEnd a)
     else qBegin a < qBegin b)"
  unfolding subLess_def word_sle_eq word_sless_alt sint_eq_iff [symmetric]
    sint_qEnd32 [OF assms(1)] sint_qEnd32 [OF assms(2)]
  by (simp add: qBegin_def tBegin_def)

lemma subLess_byQuery: "inRange a \<Longrightarrow> inRange b \<Longrightarrow> subLess a b \<Longrightarrow> byQuery a b"
  by (auto simp add: subLess_int byQuery_def split: if_splits)

lemma sint_upbound:
  fixes k :: "64 word"
  assumes "inRange v" and "uint k < 2 ^ 31"
  shows "sint (qEnd32 v - ucast k) = qEnd v - uint k"
proof -
  have "- (2 ^ 31) \<le> uint k"
    by (rule order_trans [of _ 0]) simp_all
  then have "signed_take_bit 31 (uint k) = uint k"
    using assms(2) by (intro signed_take_bit_int_eq_self) simp_all
  then have k: "sint (ucast k :: int32) = uint k"
    by (simp add: signed_ucast_eq)
  have "0 \<le> qEnd v" "qEnd v < 2 ^ 31"
    using assms(1) by (auto simp add: inRange_def qEnd_def qBegin_def)
  moreover have "0 \<le> uint k" by simp
  ultimately have "- (2 ^ 31) \<le> qEnd v - uint k" "qEnd v - uint k < 2 ^ 31"
    using assms(2) by linarith+
  then show ?thesis
    by (simp add: sint_word_ariths k sint_qEnd32 [OF assms(1)] signed_take_bit_int_eq_self)
qed

lemma within_lookback:
  fixes k :: "64 word"
  assumes v: "inRange v" and p: "inRange p" and k: "uint k < 2 ^ 31" and len: "uint (Len p) \<le> uint k"
    and w: "within v p"
  shows "\<not> QBegin p <s qEnd32 v - ucast k"
    and "qEnd32 v \<le>s qEnd32 p \<and> TBegin p \<le>s TBegin v \<and> tEnd32 v \<le>s tEnd32 p"
proof -
  have "qEnd v - uint k \<le> qBegin p"
    using w len by (simp add: within_def qEnd_def qBegin_def)
  then show "\<not> QBegin p <s qEnd32 v - ucast k"
    by (simp add: word_sless_alt sint_upbound [OF v k] qBegin_def)
  show "qEnd32 v \<le>s qEnd32 p \<and> TBegin p \<le>s TBegin v \<and> tEnd32 v \<le>s tEnd32 p"
    using w by (simp add: word_sle_eq sint_qEnd32 sint_tEnd32 v p within_def tBegin_def)
qed

lemma within_sorted_sym:
  assumes "inRange v" and "inRange p" and "subLess p v" and "within p v"
  shows "within v p"
  using assms(3,4) unfolding subLess_int [OF assms(2,1)] within_def
  by (auto simp add: qEnd_def tEnd_def qBegin_def tBegin_def split: if_splits)

lemma survivor_not_within:
  fixes k :: "64 word"
  assumes "sorted_wrt subLess (rev prev @ vs)"
    and "\<forall>a \<in> set prev \<union> set vs. inRange a \<and> uint (Len a) \<le> uint k"
    and "uint k < 2 ^ 31"
    and "w \<in> set (survivors (ucast k) prev vs)" and "p \<in> set prev"
  shows "\<not> within w p \<and> \<not> within p w"
  using assms(1,2,4,5)
proof (induction vs arbitrary: prev p)
  case Nil
  then show ?case by simp
next
  case (Cons v vs)
  have later: "w \<in> set (survivors (ucast k) (v # prev) vs) \<Longrightarrow> ?case"
  proof -
    assume a: "w \<in> set (survivors (ucast k) (v # prev) vs)"
    have "sorted_wrt subLess (rev (v # prev) @ vs)" using Cons.prems(1) by simp
    moreover have "\<forall>a \<in> set (v # prev) \<union> set vs. inRange a \<and> uint (Len a) \<le> uint k"
      using Cons.prems(2) by auto
    moreover have "p \<in> set (v # prev)" using Cons.prems(4) by simp
    ultimately show ?thesis using Cons.IH a by blast
  qed
  show ?case
  proof (cases "lookback (qEnd32 v - ucast k) v prev")
    case True
    with Cons.prems(3) later show ?thesis by simp
  next
    case False
    show ?thesis
    proof (cases "w = v")
      case False
      with \<open>\<not> lookback (qEnd32 v - ucast k) v prev\<close> Cons.prems(3) later show ?thesis by simp
    next
      case True
      have v: "inRange v" and p: "inRange p" and len: "uint (Len p) \<le> uint k"
        using Cons.prems(2,4) by auto
      have pv: "subLess p v"
        using Cons.prems(1,4) by (auto simp add: sorted_wrt_append)
      have "sorted_wrt subLess (rev prev)"
        using Cons.prems(1) by (simp add: sorted_wrt_append)
      then have "sorted_wrt (\<lambda>a b. subLess b a) prev"
        by (simp add: sorted_wrt_rev)
      then have desc: "sorted_wrt (\<lambda>a b. QBegin b \<le>s QBegin a) prev"
        by (rule sorted_wrt_mono_rel [rotated]) (simp add: subLess_QBegin)
      have nw: "\<not> within v p"
      proof
        assume "within v p"
        from within_lookback [OF v p assms(3) len this]
        have "lookback (qEnd32 v - ucast k) v prev"
          by (intro lookback_complete [OF desc Cons.prems(4)]) auto
        with False show False by simp
      qed
      moreover have "\<not> within p v"
        using nw within_sorted_sym [OF v p pv] by blast
      ultimately show ?thesis using True by simp
    qed
  qed
qed

lemma survivors_no_nested:
  fixes k :: "64 word"
  assumes "sorted_wrt subLess (rev prev @ vs)"
    and "\<forall>a \<in> set prev \<union> set vs. inRange a \<and> uint (Len a) \<le> uint k"
    and "uint k < 2 ^ 31"
  shows "sorted_wrt (\<lambda>a b. \<not> within a b \<and> \<not> within b a) (survivors (ucast k) prev vs)"
  using assms(1,2)
proof (induction vs arbitrary: prev)
  case Nil
  then show ?case by simp
next
  case (Cons v vs)
  have s: "sorted_wrt subLess (rev (v # prev) @ vs)" using Cons.prems(1) by simp
  have r: "\<forall>a \<in> set (v # prev) \<union> set vs. inRange a \<and> uint (Len a) \<le> uint k"
    using Cons.prems(2) by auto
  have rest: "sorted_wrt (\<lambda>a b. \<not> within a b \<and> \<not> within b a) (survivors (ucast k) (v # prev) vs)"
    using Cons.IH [OF s r] .
  have "\<not> within v w \<and> \<not> within w v" if "w \<in> set (survivors (ucast k) (v # prev) vs)" for w
    using survivor_not_within [OF s r assms(3) that, of v] by simp
  with rest show ?case by simp
qed


lemma dropNested_properties:
  fixes k :: "64 word"
  assumes "sorted_wrt subLess ys"
    and "\<forall>a \<in> set ys. inRange a \<and> uint (Len a) \<le> uint k"
    and "uint k < 2 ^ 31"
  shows "sorted_wrt byQuery (dropNested ys k)"
    and "sorted_wrt (\<lambda>a b. \<not> within a b \<and> \<not> within b a) (dropNested ys k)"
    and "set (dropNested ys k) \<subseteq> set ys"
proof -
  have "sorted_wrt byQuery ys"
    using assms(1,2)
    by (auto simp add: sorted_wrt_iff_nth_less intro!: subLess_byQuery)
  then show "sorted_wrt byQuery (dropNested ys k)"
    unfolding dropNested_survivors by (rule sorted_wrt_survivors)
  show "sorted_wrt (\<lambda>a b. \<not> within a b \<and> \<not> within b a) (dropNested ys k)"
    unfolding dropNested_survivors
    using survivors_no_nested [of "[]" ys k] assms by simp
  show "set (dropNested ys k) \<subseteq> set ys"
    unfolding dropNested_survivors by (rule set_survivors)
qed

lemma noneNested_sorted_wrt:
  "sorted_wrt (\<lambda>a b. \<not> within a b \<and> \<not> within b a) subs \<Longrightarrow> noneNested subs"
  unfolding noneNested_def sorted_wrt_iff_nth_less
  by (metis linorder_neqE_nat)

text \<open>
  Claim C7: for anchors with \<open>Len \<le> k\<close> (anchors of the data model: positions from 0 on and
  ends inside \<open>int32\<close>; \<open>k\<close> a non-negative \<open>int\<close> below \<open>2^31\<close>), the anchors left by
  \<open>ClearSubstrPairs\<close> are in ascending order of \<open>QBegin\<close>, ties in descending order of the
  query end, none of them lies within another one with both its query and its target
  interval, and they are anchors of the input. The same holds whatever order
  \<open>sort.Slice\<close> leaves among the anchors that its comparator does not separate.
\<close>

theorem ClearSubstrPairs_sorted_none_nested:
  fixes k :: "64 word"
  assumes "\<forall>a \<in> set subs. inRange a \<and> uint (Len a) \<le> uint k"
    and "uint k < 2 ^ 31"
  shows "sorted_wrt byQuery (ClearSubstrPairs subs k)
       \<and> noneNested (ClearSubstrPairs subs k)
       \<and> set (ClearSubstrPairs subs k) \<subseteq> set subs
       \<and> (\<forall>ys. mset ys = mset subs \<and> sorted_wrt subLess ys \<longrightarrow>
             sorted_wrt byQuery (dropNested ys k) \<and> noneNested (dropNested ys k)
             \<and> set (dropNested ys k) \<subseteq> set subs)"
proof -
  have gen: "sorted_wrt byQuery (dropNested ys k) \<and> noneNested (dropNested ys k)
             \<and> set (dropNested ys k) \<subseteq> set subs"
    if "mset ys = mset subs" and "sorted_wrt subLess ys" for ys
  proof -
    have s: "set ys = set subs" using that(1) by (rule mset_eq_setD)
    with assms(1) have r: "\<forall>a \<in> set ys. inRange a \<and> uint (Len a) \<le> uint k" by simp
    from dropNested_properties [OF that(2) r assms(2)] s show ?thesis
      by (simp add: noneNested_sorted_wrt)
  qed
  show ?thesis
  proof (cases "length subs < 2")
    case True
    then have "subs = [] \<or> (\<exists>a. subs = [a])"
      by (cases subs; cases "tl subs") auto
    then have "sorted_wrt byQuery subs \<and> noneNested subs"
      by (auto simp add: noneNested_def)
    with True gen show ?thesis by (simp add: ClearSubstrPairs_def)
  next
    case False
    with gen [OF mset_sortSubs sorted_sortSubs] gen show ?thesis
      by (simp add: ClearSubstrPairs_def)
  qed
qed

lemma ClearSubstrPairs_example:
  "ClearSubstrPairs [exAnchor1, exAnchor2, exAnchor3, exAnchor1] 31 = [exAnchor3, exAnchor1]"
  by (simp add: ClearSubstrPairs_def sortSubs_def subLess_def qEnd32_def tEnd32_def
      exAnchor1_def exAnchor2_def exAnchor3_def dropNested_def compact_def
      word_sle_eq word_sless_alt)

theorem ClearSubstrPairs_sorted_none_nested_witness:
  "inRange exAnchor1 \<and> inRange exAnchor2 \<and> inRange exAnchor3
   \<and> uint (Len exAnchor1) \<le> uint (31 :: 64 word)
   \<and> uint (Len exAnchor2) \<le> uint (31 :: 64 word)
   \<and> uint (Len exAnchor3) \<le> uint (31 :: 64 word)
   \<and> uint (31 :: 64 word) < 2 ^ 31
   \<and> ClearSubstrPairs [exAnchor1, exAnchor2, exAnchor3, exAnchor1] 31 = [exAnchor3, exAnchor1]
   \<and> sorted_wrt byQuery [exAnchor3, exAnchor1] \<and> noneNested [exAnchor3, exAnchor1]"
proof -
  have r: "inRange exAnchor1" "inRange exAnchor2" "inRange exAnchor3"
    and l: "uint (Len exAnchor1) \<le> uint (31 :: 64 word)"
      "uint (Len exAnchor2) \<le> uint (31 :: 64 word)"
      "uint (Len exAnchor3) \<le> uint (31 :: 64 word)"
    by (simp_all add: inRange_def qBegin_def qEnd_def tBegin_def tEnd_def
        exAnchor1_def exAnchor2_def exAnchor3_def)
  then have h1: "\<forall>a \<in> set [exAnchor1, exAnchor2, exAnchor3, exAnchor1].
      inRange a \<and> uint (Len a) \<le> uint (31 :: 64 word)"
    by simp
  have h2: "uint (31 :: 64 word) < 2 ^ 31" by simp
  show ?thesis
    using r l h2 ClearSubstrPairs_sorted_none_nested [OF h1 h2]
    unfolding ClearSubstrPairs_example by blast
qed

subsection \<open>The prefilter\<close>

text \<open>
  Claim C3, as stated: a target with exactly one cleaned anchor is kept if and only if the
  anchor's \<open>Len\<close> is at least \<open>MinSinglePrefix\<close> or its \<open>Mismatch\<close> is at most \<open>MaxMismatch\<close>.
  With \<open>K = 31\<close>, \<open>MinPrefix = 15\<close>, \<open>MaxMismatch = 3\<close> and \<open>MinSinglePrefix = 20\<close> the
  mismatch check is on, and a single anchor of length 25 with 5 mismatches is dropped.
\<close>

theorem single_seed_prefilter_counterexample:
  "ClearSubstrPairs [exLongSeed] 31 = [exLongSeed]
   \<and> (MinSinglePrefix exOptions \<le> Len exLongSeed
        \<or> ucast (Mismatch exLongSeed) \<le>s MaxMismatch exOptions)
   \<and> preprocessTarget 31 exOptions [exLongSeed] = None"
  by (simp add: ClearSubstrPairs_def preprocessTarget_def Let_def singleSeedDropped_def
      checkMismatch_def exOptions_def exLongSeed_def word_sle_eq word_sless_alt)

text \<open>
  Claim C3, amended: \<open>Index.Search\<close> tests only one of the two conditions, chosen by
  \<open>checkMismatch := maxMismatch >= 0 && maxMismatch < K-int(MinPrefix)\<close>. A target with
  exactly one cleaned anchor is kept if and only if, when the check is on, the anchor's
  \<open>Mismatch\<close> is at most \<open>MaxMismatch\<close>, and when it is off, its \<open>Len\<close> is at least
  \<open>MinSinglePrefix\<close>.
\<close>

theorem single_seed_prefilter:
  assumes "ClearSubstrPairs subs k = [a]"
  shows "preprocessTarget k opt subs \<noteq> None \<longleftrightarrow>
     (if 0 \<le>s MaxMismatch opt \<and> MaxMismatch opt <s k - ucast (MinPrefix opt)
      then ucast (Mismatch a) \<le>s MaxMismatch opt
      else MinSinglePrefix opt \<le> Len a)"
  using assms
  by (auto simp add: preprocessTarget_def Let_def singleSeedDropped_def checkMismatch_def
      word_sle_eq word_sless_alt not_less not_le)

theorem single_seed_prefilter_witness:
  "ClearSubstrPairs [exLongSeed] 31 = [exLongSeed]
   \<and> (0 \<le>s MaxMismatch exOptions \<and> MaxMismatch exOptions <s 31 - ucast (MinPrefix exOptions))
   \<and> \<not> ucast (Mismatch exLongSeed) \<le>s MaxMismatch exOptions
   \<and> preprocessTarget 31 exOptions [exLongSeed] = None"
proof -
  have h: "ClearSubstrPairs [exLongSeed] 31 = [exLongSeed]"
    by (simp add: ClearSubstrPairs_def)
  show ?thesis
    using h single_seed_prefilter [OF h, of exOptions]
    by (simp add: exOptions_def exLongSeed_def word_sle_eq word_sless_alt del: not_None_eq)
qed

subsection \<open>Chainer2: the early exit\<close>

declare bandLoop.simps [simp del] scoreLoop.simps [simp del] chainARegion.simps [simp del]

lemma scoreLoop_step:
  "i < int (length subs) \<Longrightarrow>
   scoreLoop opt subs i maxscores maxscoresIdxs M Mi =
   scoreLoop opt subs (i + 1)
     (maxscores @ [fst (bandLoop opt subs maxscores i 1 (aLen (subs ! nat i)) i)])
     (maxscoresIdxs @ [snd (bandLoop opt subs maxscores i 1 (aLen (subs ! nat i)) i)])
     (if fst (bandLoop opt subs maxscores i 1 (aLen (subs ! nat i)) i) > M
      then fst (bandLoop opt subs maxscores i 1 (aLen (subs ! nat i)) i) else M)
     (if fst (bandLoop opt subs maxscores i 1 (aLen (subs ! nat i)) i) > M then i else Mi)"
  by (subst scoreLoop.simps) (simp add: Let_def)

lemma scoreLoop_stop:
  "\<not> i < int (length subs) \<Longrightarrow>
   scoreLoop opt subs i maxscores maxscoresIdxs M Mi = (maxscores, maxscoresIdxs, M, Mi)"
  by (subst scoreLoop.simps) simp

lemma scoreLoop_scores:
  "set maxscores \<subseteq> set (fst (scoreLoop opt subs i maxscores maxscoresIdxs M Mi))"
proof (induction opt subs i maxscores maxscoresIdxs M Mi rule: scoreLoop.induct)
  case (1 opt subs i maxscores maxscoresIdxs M Mi)
  show ?case
  proof (cases "i < int (length subs)")
    case True
    from 1 [OF True refl refl refl refl] show ?thesis
      unfolding scoreLoop_step [OF True] by simp
  next
    case False
    then show ?thesis by (simp add: scoreLoop_stop)
  qed
qed

lemma scoreLoop_maximum:
  "M < B \<Longrightarrow> \<forall>s \<in> set (fst (scoreLoop opt subs i maxscores maxscoresIdxs M Mi)). s < B \<Longrightarrow>
   fst (snd (snd (scoreLoop opt subs i maxscores maxscoresIdxs M Mi))) < B"
proof (induction opt subs i maxscores maxscoresIdxs M Mi rule: scoreLoop.induct)
  case (1 opt subs i maxscores maxscoresIdxs M Mi)
  show ?case
  proof (cases "i < int (length subs)")
    case True
    define m where "m = fst (bandLoop opt subs maxscores i 1 (aLen (subs ! nat i)) i)"
    define mj where "mj = snd (bandLoop opt subs maxscores i 1 (aLen (subs ! nat i)) i)"
    note step = scoreLoop_step [OF True, of opt maxscores maxscoresIdxs M Mi, folded m_def mj_def]
    have "m \<in> set (fst (scoreLoop opt subs i maxscores maxscoresIdxs M Mi))"
      unfolding step
      using scoreLoop_scores [of "maxscores @ [m]" opt subs "i + 1" "maxscoresIdxs @ [mj]"
          "if m > M then m else M" "if m > M then i else Mi"]
      by auto
    with 1(3) have "m < B" by blast
    with 1(2) have "(if m > M then m else M) < B" by simp
    from 1(1) [OF True refl refl refl refl, folded m_def mj_def, OF this] 1(3)
    show ?thesis unfolding step by simp
  next
    case False
    with 1(2) show ?thesis by (simp add: scoreLoop_stop)
  qed
qed

text \<open>
  Claim C4, as stated: for every anchor list, a maximum of the scores below 100 gives no
  chain. A list of one anchor of length 50 has the single score 50, \<open>Chain\<close> does not
  compute any maximum for it (\<open>M\<close> would be 0), and it returns the chain of that anchor
  with 50 matched and 50 aligned bases.
\<close>

theorem Chain_early_exit_counterexample:
  "dpScores DefaultChaining2Options [exSeed 0 0 50] = [50]
   \<and> dpMaximum DefaultChaining2Options [exSeed 0 0 50] = 0
   \<and> Chainer2_Chain DefaultChaining2Options exPooled [exSeed 0 0 50]
       = Some (Inr ([exPooled\<lparr>Chain := [0]\<rparr>], 50, 50, 0, 0, 0, 0))"
  by (simp add: dpScores_def dpMaximum_def Chainer2_Chain_def DefaultChaining2Options_def exSeed_def
      scoreLoop_stop)

text \<open>
  Claim C4, amended: for every list of at least two anchors, if the maximum \<open>M\<close> of the
  scores is below 100 (in particular if every score is), \<open>Chain\<close> returns no chain, zero
  matched bases and zero aligned bases. A list of exactly one anchor skips the scores:
  it yields the one-anchor chain with \<open>Len\<close> matched and aligned bases if \<open>Len\<close> is at
  least \<open>MinScore\<close>, and no chain otherwise.
\<close>

theorem Chain_early_exit:
  "(2 \<le> length subs \<and> (dpMaximum opt subs < 100 \<or> (\<forall>s \<in> set (dpScores opt subs). s < 100))
      \<longrightarrow> Chainer2_Chain opt pooled subs = Some (Inr ([], 0, 0, 0, 0, 0, 0)))
   \<and> (length subs = 1 \<longrightarrow>
        Chainer2_Chain opt pooled subs =
          (if aLen (subs ! 0) \<ge> MinScore opt
           then Some (Inr ([pooled\<lparr>Chain := [0]\<rparr>], aLen (subs ! 0), aLen (subs ! 0), 0, 0, 0, 0))
           else Some (Inr ([], 0, 0, 0, 0, 0, 0))))"
proof -
  have "dpMaximum opt subs < 100" if "\<forall>s \<in> set (dpScores opt subs). s < 100"
    using that unfolding dpMaximum_def dpScores_def
    by (intro scoreLoop_maximum) simp_all
  then have "Chainer2_Chain opt pooled subs = Some (Inr ([], 0, 0, 0, 0, 0, 0))"
    if "2 \<le> length subs" "dpMaximum opt subs < 100 \<or> (\<forall>s \<in> set (dpScores opt subs). s < 100)"
    using that by (auto simp add: Chainer2_Chain_def dpMaximum_def Let_def split: prod.splits)
  then show ?thesis
    by (auto simp add: Chainer2_Chain_def Let_def)
qed

text \<open>Two overlapping collinear anchors of length 60 reach the score 120 and form one chain.\<close>

lemma Chain_example:
  "Chainer2_Chain DefaultChaining2Options exPooled [exSeed 0 0 60, exSeed 30 30 60]
    = Some (Inr ([\<lparr>Chain = [0, 1], MatchedBases = 90, AlignedBases = 90, rQBegin = 0,
            rQEnd = 89, rTBegin = 0, rTEnd = 89\<rparr>], 90, 90, 0, 89, 0, 89))"
  by code_simp

theorem Chain_early_exit_witness:
  "2 \<le> length [exSeed 0 0 20, exSeed 10 10 30]
   \<and> dpMaximum DefaultChaining2Options [exSeed 0 0 20, exSeed 10 10 30] = 40
   \<and> Chainer2_Chain DefaultChaining2Options exPooled [exSeed 0 0 20, exSeed 10 10 30]
       = Some (Inr ([], 0, 0, 0, 0, 0, 0))
   \<and> length [exSeed 0 0 10] = 1
   \<and> Chainer2_Chain DefaultChaining2Options exPooled [exSeed 0 0 10]
       = Some (Inr ([], 0, 0, 0, 0, 0, 0))"
proof -
  have m: "dpMaximum DefaultChaining2Options [exSeed 0 0 20, exSeed 10 10 30] = 40"
    by code_simp
  have s: "aLen (exSeed 0 0 10) = 10" "MinScore DefaultChaining2Options = 20"
    by (simp_all add: exSeed_def DefaultChaining2Options_def)
  show ?thesis
    using m s Chain_early_exit [of "[exSeed 0 0 20, exSeed 10 10 30]" DefaultChaining2Options exPooled]
      Chain_early_exit [of "[exSeed 0 0 10]" DefaultChaining2Options exPooled]
    by simp
qed

end
